theory Spec2Isabelle
  imports Main
begin

section \<open>Strings of the web client\<close>

text \<open>
  The web client (\<^verbatim>\<open>web/src/lib/sse.ts\<close>) works on JavaScript strings. They are modelled
  as \<^typ>\<open>string\<close>, one \<^typ>\<open>char\<close> per code unit, which covers the code units below 256.
  The string methods the client calls are modelled after their ECMAScript definitions.
\<close>

definition is_ws :: "char \<Rightarrow> bool" where
  \<comment> \<open>WhiteSpace and LineTerminator code units (tab, LF, VT, FF, CR, space, NBSP).\<close>
  "is_ws c = (c = CHR 0x09 \<or> c = CHR ''\<newline>'' \<or> c = CHR 0x0B \<or> c = CHR 0x0C
      \<or> c = CHR 0x0D \<or> c = CHR '' '' \<or> c = CHR 0xA0)"

definition trimStart :: "string \<Rightarrow> string" where
  "trimStart s = dropWhile is_ws s"

definition trimEnd :: "string \<Rightarrow> string" where
  "trimEnd s = rev (dropWhile is_ws (rev s))"

definition trim :: "string \<Rightarrow> string" where
  "trim s = trimEnd (trimStart s)"

definition startsWith :: "string \<Rightarrow> string \<Rightarrow> bool" where
  "startsWith s p = (take (length p) s = p)"

definition slice :: "string \<Rightarrow> nat \<Rightarrow> string" where
  \<comment> \<open>\<^verbatim>\<open>s.slice(n)\<close> with one non-negative argument.\<close>
  "slice s n = drop n s"

text \<open>
  \<^verbatim>\<open>s.split(sep)\<close>: the separator is searched from left to right, matches do not
  overlap, and the pieces between the matches are returned. \<open>splitFrom\<close> scans the
  text; the first piece grows until the separator starts at the current position.
\<close>

function splitFrom :: "string \<Rightarrow> string \<Rightarrow> string list" where
  "splitFrom sep [] = [[]]"
| "splitFrom sep (c # cs) =
     (if sep \<noteq> [] \<and> startsWith (c # cs) sep
      then [] # splitFrom sep (drop (length sep) (c # cs))
      else (case splitFrom sep cs of
              [] \<Rightarrow> [[c]]
            | p # ps \<Rightarrow> (c # p) # ps))"
  by pat_completeness auto
termination
  by (relation "measure (\<lambda>(sep, s). length s)") auto

definition split :: "string \<Rightarrow> string \<Rightarrow> string list" where
  \<comment> \<open>An empty separator splits into single code units.\<close>
  "split s sep = (if sep = [] then map (\<lambda>c. [c]) s else splitFrom sep s)"

fun join :: "string list \<Rightarrow> string \<Rightarrow> string" where
  \<comment> \<open>\<^verbatim>\<open>parts.join(sep)\<close>\<close>
  "join [] sep = []"
| "join [x] sep = x"
| "join (x # y # ys) sep = x @ sep @ join (y # ys) sep"

section \<open>The SSE client\<close>

text \<open>
  \<^verbatim>\<open>
  export type SseMessage =
    | { type: "start" }
    | { type: "delta"; text: string }
    | { type: "done" }
    | { type: "error"; message: string }
    | { type: "model_info"; model: string };
  \<close>
  A tagged union: one constructor per member. \<open>msg_type\<close> is the \<^verbatim>\<open>type\<close> field and
  \<open>msg_fields\<close> lists the other fields of the object, name and value.
\<close>

datatype SseMessage =
    Start
  | Delta string
  | Done
  | Error string
  | ModelInfo string

fun msg_type :: "SseMessage \<Rightarrow> string" where
  "msg_type Start = ''start''"
| "msg_type (Delta t) = ''delta''"
| "msg_type Done = ''done''"
| "msg_type (Error m) = ''error''"
| "msg_type (ModelInfo m) = ''model_info''"

fun msg_fields :: "SseMessage \<Rightarrow> (string \<times> string) list" where
  "msg_fields Start = []"
| "msg_fields (Delta t) = [(''text'', t)]"
| "msg_fields Done = []"
| "msg_fields (Error m) = [(''message'', m)]"
| "msg_fields (ModelInfo m) = [(''model'', m)]"

text \<open>
  At run time a message is whatever \<^verbatim>\<open>JSON.parse\<close> returns: the cast
  \<^verbatim>\<open>JSON.parse(parsed.data) as SseMessage\<close> checks nothing. \<open>Json\<close> is the type of these
  values (numbers: the integers among them; an object lists its fields, each name once).
  \<open>lookupField\<close> reads a property, \<open>fieldNames\<close> are the names of the fields an object
  carries, and \<open>toJson\<close> is the object that a member of \<open>SseMessage\<close> stands for.
\<close>

datatype Json =
    JNull
  | JBool bool
  | JNum int
  | JStr string
  | JArr "Json list"
  | JObj "(string \<times> Json) list"

fun lookupField :: "string \<Rightarrow> Json \<Rightarrow> Json option" where
  "lookupField k (JObj fs) = map_of fs k"
| "lookupField k JNull = None"
| "lookupField k (JBool b) = None"
| "lookupField k (JNum n) = None"
| "lookupField k (JStr s) = None"
| "lookupField k (JArr vs) = None"

fun fieldNames :: "Json \<Rightarrow> string list" where
  "fieldNames (JObj fs) = map fst fs"
| "fieldNames JNull = []"
| "fieldNames (JBool b) = []"
| "fieldNames (JNum n) = []"
| "fieldNames (JStr s) = []"
| "fieldNames (JArr vs) = []"

fun isObject :: "Json \<Rightarrow> bool" where
  "isObject (JObj fs) = True"
| "isObject JNull = False"
| "isObject (JBool b) = False"
| "isObject (JNum n) = False"
| "isObject (JStr s) = False"
| "isObject (JArr vs) = False"

fun isStringValue :: "Json option \<Rightarrow> bool" where
  "isStringValue (Some (JStr s)) = True"
| "isStringValue (Some JNull) = False"
| "isStringValue (Some (JBool b)) = False"
| "isStringValue (Some (JNum n)) = False"
| "isStringValue (Some (JArr vs)) = False"
| "isStringValue (Some (JObj fs)) = False"
| "isStringValue None = False"

definition toJson :: "SseMessage \<Rightarrow> Json" where
  "toJson m = JObj ((''type'', JStr (msg_type m)) # map (\<lambda>(k, x). (k, JStr x)) (msg_fields m))"

text \<open>
  A run-time value has one of the shapes of \<open>SseMessage\<close> when it is an object whose
  \<^verbatim>\<open>type\<close> field is the tag of a member of the union and whose fields are exactly the
  fields of that member, the other field being a string.
\<close>

definition hasExactly :: "Json \<Rightarrow> string list \<Rightarrow> bool" where
  "hasExactly v names =
     (isObject v \<and> distinct (fieldNames v) \<and> set (fieldNames v) = set names)"

definition isSseMessage :: "Json \<Rightarrow> bool" where
  "isSseMessage v =
     ((lookupField ''type'' v = Some (JStr ''start'') \<and> hasExactly v [''type''])
      \<or> (lookupField ''type'' v = Some (JStr ''delta'')
           \<and> isStringValue (lookupField ''text'' v) \<and> hasExactly v [''type'', ''text''])
      \<or> (lookupField ''type'' v = Some (JStr ''done'') \<and> hasExactly v [''type''])
      \<or> (lookupField ''type'' v = Some (JStr ''error'')
           \<and> isStringValue (lookupField ''message'' v) \<and> hasExactly v [''type'', ''message''])
      \<or> (lookupField ''type'' v = Some (JStr ''model_info'')
           \<and> isStringValue (lookupField ''model'' v) \<and> hasExactly v [''type'', ''model'']))"

text \<open>
  The three shapes of the outward event stream of Zflow: \<^verbatim>\<open>delta\<close>, \<^verbatim>\<open>error\<close> and \<^verbatim>\<open>done\<close>.
\<close>

definition isZflowEvent :: "Json \<Rightarrow> bool" where
  "isZflowEvent v =
     ((lookupField ''type'' v = Some (JStr ''delta'')
           \<and> isStringValue (lookupField ''text'' v) \<and> hasExactly v [''type'', ''text''])
      \<or> (lookupField ''type'' v = Some (JStr ''error'')
           \<and> isStringValue (lookupField ''message'' v) \<and> hasExactly v [''type'', ''message''])
      \<or> (lookupField ''type'' v = Some (JStr ''done'') \<and> hasExactly v [''type'']))"

text \<open>
  \<^verbatim>\<open>
  function parseSseLines(buffer: string): { events: string[]; rest: string } {
    const parts = buffer.split("\n\n");
    const rest = parts.pop() ?? "";
    return { events: parts, rest };
  }
  \<close>
  \<^verbatim>\<open>pop\<close> removes the last element and returns it, or \<^verbatim>\<open>undefined\<close> on an empty array.
\<close>

record SseLines =
  events :: "string list"
  rest :: string

definition parseSseLines :: "string \<Rightarrow> SseLines" where
  "parseSseLines buffer =
     (let parts = split buffer ''\<newline>\<newline>''
      in \<lparr>events = butlast parts,
          rest = (if parts = [] then [] else last parts)\<rparr>)"

text \<open>
  \<^verbatim>\<open>
  function parseEventBlock(block: string): { event: string; data: string } | null {
    const lines = block.split("\n");
    let event = "message";
    let data = "";
    for (const raw of lines) {
      const line = raw.trimEnd();
      if (!line) continue;
      if (line.startsWith("event:")) {
        event = line.slice("event:".length).trim();
        continue;
      }
      if (line.startsWith("data:")) {
        data += line.slice("data:".length).trim();
        continue;
      }
    }
    if (!data) return null;
    return { event, data };
  }
  \<close>
  \<open>blockLine\<close> is one pass of the loop body over the pair of the two local variables.
\<close>

record EventBlock =
  event :: string
  data :: string

definition blockLine :: "string \<Rightarrow> string \<times> string \<Rightarrow> string \<times> string" where
  "blockLine raw st =
     (case st of (ev, dat) \<Rightarrow>
        (let line = trimEnd raw in
         if line = [] then (ev, dat)
         else if startsWith line ''event:''
           then (trim (slice line (length ''event:'')), dat)
         else if startsWith line ''data:''
           then (ev, dat @ trim (slice line (length ''data:'')))
         else (ev, dat)))"

definition parseEventBlock :: "string \<Rightarrow> EventBlock option" where
  "parseEventBlock block =
     (case fold blockLine (split block ''\<newline>'') (''message'', []) of
        (ev, dat) \<Rightarrow> if dat = [] then None else Some \<lparr>event = ev, data = dat\<rparr>)"

text \<open>
  \<^verbatim>\<open>
  export async function* fetchSse(url, init): AsyncGenerator<SseMessage, void, unknown> {
    const res = await fetch(url, { ... });
    if (!res.ok || !res.body) {
      throw new Error(`HTTP ${res.status}`);
    }
    const reader = res.body.getReader();
    const decoder = new TextDecoder();
    let buffer = "";
    while (true) {
      const { value, done } = await reader.read();
      if (done) break;
      buffer += decoder.decode(value, { stream: true });
      const { events, rest } = parseSseLines(buffer);
      buffer = rest;
      for (const block of events) {
        const parsed = parseEventBlock(block);
        if (!parsed) continue;
        try {
          const msg = JSON.parse(parsed.data) as SseMessage;
          yield msg;
        } catch {
          // ignore malformed events
        }
      }
    }
  }
  \<close>
  The response is a record of the fields the generator reads; its body is the list of
  the texts that the streaming decoder returns for the successive reads, up to the read
  that reports \<^verbatim>\<open>done\<close>. \<^verbatim>\<open>JSON.parse\<close> belongs to the platform and is a parameter:
  \<open>None\<close> stands for the \<^verbatim>\<open>SyntaxError\<close> it throws. The generator's result is the
  exception it throws, or the messages it yields, in order.
\<close>

record Response =
  ok :: bool
  status :: nat
  body :: "string list option"

datatype FetchError = HttpError nat

definition yieldBlock :: "(string \<Rightarrow> 'm option) \<Rightarrow> string \<Rightarrow> 'm list" where
  \<comment> \<open>The body of the inner \<^verbatim>\<open>for\<close> loop: what one block makes the generator yield.\<close>
  "yieldBlock jsonParse block =
     (case parseEventBlock block of
        None \<Rightarrow> []
      | Some parsed \<Rightarrow>
          (case jsonParse (data parsed) of
             None \<Rightarrow> []
           | Some msg \<Rightarrow> [msg]))"

fun readLoop :: "(string \<Rightarrow> 'm option) \<Rightarrow> string \<Rightarrow> string list \<Rightarrow> 'm list" where
  "readLoop jsonParse buffer [] = []"
| "readLoop jsonParse buffer (v # vs) =
     (let r = parseSseLines (buffer @ v)
      in concat (map (yieldBlock jsonParse) (events r)) @ readLoop jsonParse (rest r) vs)"

definition fetchSse :: "(string \<Rightarrow> 'm option) \<Rightarrow> Response \<Rightarrow> FetchError + 'm list" where
  "fetchSse jsonParse res =
     (if \<not> ok res then Inl (HttpError (status res))
      else (case body res of
              None \<Rightarrow> Inl (HttpError (status res))
            | Some chunks \<Rightarrow> Inr (readLoop jsonParse [] chunks)))"

section \<open>The flows page\<close>

text \<open>
  \<^verbatim>\<open>
  async function run() {
    setBusy(true);
    setOutput("");
    try {
      for await (const evt of fetchSse(`${API_BASE}/api/zflow/execute`, { ... })) {
        if (evt.type === "delta") setOutput((p) => p + evt.text);
        if (evt.type === "error") setOutput((p) => p + `\nError: ${evt.message}\n`);
      }
    } finally {
      setBusy(false);
    }
  }
  \<close>
  \<open>onEvent\<close> is the loop body as a function of the event and the output so far;
  \<open>runOutput\<close> is the output after the events of a stream, starting from the empty
  output that \<^verbatim>\<open>setOutput("")\<close> sets. An exception of the generator leaves the loop
  with the output as it is.
\<close>

fun onEvent :: "SseMessage \<Rightarrow> string \<Rightarrow> string" where
  "onEvent (Delta t) p = p @ t"
| "onEvent (Error m) p = p @ ''\<newline>Error: '' @ m @ ''\<newline>''"
| "onEvent Start p = p"
| "onEvent Done p = p"
| "onEvent (ModelInfo m) p = p"

definition runOutput :: "SseMessage list \<Rightarrow> string" where
  "runOutput evts = fold onEvent evts []"

definition run :: "(string \<Rightarrow> SseMessage option) \<Rightarrow> Response \<Rightarrow> FetchError option \<times> string" where
  "run jsonParse res =
     (case fetchSse jsonParse res of
        Inl e \<Rightarrow> (Some e, [])
      | Inr evts \<Rightarrow> (None, runOutput evts))"

text \<open>
  Two stream texts differ only in their \<^verbatim>\<open>event:\<close> header lines when they have the same
  number of lines and, line by line, the lines are equal or both are \<^verbatim>\<open>event:\<close> headers.
\<close>

definition sameLineOrHeader :: "string \<Rightarrow> string \<Rightarrow> bool" where
  "sameLineOrHeader a b = (a = b \<or> (startsWith a ''event:'' \<and> startsWith b ''event:''))"

definition sameExceptEventHeaders :: "string \<Rightarrow> string \<Rightarrow> bool" where
  "sameExceptEventHeaders s t =
     list_all2 sameLineOrHeader (split s ''\<newline>'') (split t ''\<newline>'')"

text \<open>
  A block has a \<^verbatim>\<open>data:\<close> line when one of its lines starts with \<^verbatim>\<open>data:\<close>.
\<close>

definition hasDataLine :: "string \<Rightarrow> bool" where
  "hasDataLine block = list_ex (\<lambda>l. startsWith l ''data:'') (split block ''\<newline>'')"

text \<open>
  A block is malformed when it has no \<^verbatim>\<open>data:\<close> line, or when the payload collected from
  its \<^verbatim>\<open>data:\<close> lines is not valid JSON.
\<close>

definition malformedBlock :: "(string \<Rightarrow> 'm option) \<Rightarrow> string \<Rightarrow> bool" where
  "malformedBlock jsonParse block =
     (\<not> hasDataLine block \<or>
      (case parseEventBlock block of
         None \<Rightarrow> False
       | Some parsed \<Rightarrow> jsonParse (data parsed) = None))"

text \<open>
  The messages of a whole stream text: what the blocks before the last blank line yield,
  in order.
\<close>

definition streamMessages :: "(string \<Rightarrow> 'm option) \<Rightarrow> string \<Rightarrow> 'm list" where
  "streamMessages jsonParse s =
     concat (map (yieldBlock jsonParse) (events (parseSseLines s)))"

text \<open>
  The blocks of a text, computed on its list of lines: a blank line that is neither the
  first line of its block nor the last line of the text ends the block; the scan goes on
  after it.
\<close>

fun blocksOfLines :: "string list \<Rightarrow> string list list" where
  "blocksOfLines [] = [[]]"
| "blocksOfLines [l] = [[l]]"
| "blocksOfLines (l # m # ls) =
     (if m = [] \<and> ls \<noteq> [] then [l] # blocksOfLines ls
      else (case blocksOfLines (m # ls) of
              [] \<Rightarrow> [[l]]
            | g # gs \<Rightarrow> (l # g) # gs))"

text \<open>
  For the examples below: a decoder that is defined on three payloads only and decodes
  them as \<^verbatim>\<open>JSON.parse\<close> does.
\<close>

definition sampleParse :: "string \<Rightarrow> SseMessage option" where
  \<open>sampleParse s =
     (if s = ''{"type":"done"}'' then Some Done
      else if s = ''{"type":"delta","text":"hi"}'' then Some (Delta ''hi'')
      else if s = ''{"type":"error","message":"boom"}'' then Some (Error ''boom'')
      else None)\<close>

text \<open>
  For the examples below: a decoder to run-time values that is defined on three payloads
  only and decodes them as \<^verbatim>\<open>JSON.parse\<close> does.
\<close>

definition sampleJsonParse :: "string \<Rightarrow> Json option" where
  \<open>sampleJsonParse s =
     (if s = ''{"type":"done"}'' then Some (JObj [(''type'', JStr ''done'')])
      else if s = ''{"type":"bogus"}'' then Some (JObj [(''type'', JStr ''bogus'')])
      else if s = ''17'' then Some (JNum 17)
      else None)\<close>

section \<open>The Zflow core\<close>

text \<open>
  The lexer, the parser and the executor of Zflow are not among the sources at hand,
  which hold the web client only. The definitions of this section follow the
  specification of the repository (its sections 3, 4.3, 6 and 7).
\<close>

text \<open>
  Modelled from the spec: the kinds of a variable (section 3); the type is declared by
  the missing parser.
\<close>

datatype Kind = Model | Prompt | Input

text \<open>
  Modelled from the spec: the variants of \<^verbatim>\<open>ParseError\<close> (section 7), raised by the missing
  parser.
\<close>

datatype ParseError =
    UnknownVariableKind
  | VariableKindMismatch
  | UndefinedVariable
  | EmptyWorkflow
  | DuplicateKindMismatch
  | SyntaxError

text \<open>
  Modelled from the spec: the test for an uppercase letter that the missing parser
  applies to a name (section 3), the letters \<^verbatim>\<open>A\<close> to \<^verbatim>\<open>Z\<close>.
\<close>

definition isUpper :: "char \<Rightarrow> bool" where
  "isUpper c = (65 \<le> (of_char c :: nat) \<and> (of_char c :: nat) \<le> 90)"

text \<open>
  Modelled from the spec: the classification of a variable name, which the missing
  parser applies to every assignment (section 3). Exactly one uppercase letter is a
  Model, a name starting with \<^verbatim>\<open>p\<close> a Prompt, a name starting with \<^verbatim>\<open>i\<close> an Input, any
  other shape the parse error \<^verbatim>\<open>UnknownVariableKind\<close>.
\<close>

definition inferKind :: "string \<Rightarrow> ParseError + Kind" where
  "inferKind name =
     (if length name = 1 \<and> list_all isUpper name then Inr Model
      else if startsWith name ''p'' then Inr Prompt
      else if startsWith name ''i'' then Inr Input
      else Inl UnknownVariableKind)"

text \<open>
  Modelled from the spec: an operator call of the missing workflow AST, with its
  variables resolved to their values (section 3).
\<close>

record OperatorCall =
  model :: string
  prompt :: "string option"
  extraInput :: "string option"

text \<open>
  Modelled from the spec: a stage of the workflow chain of the missing AST, a single call
  or a Parallel group (section 3). A workflow is the list of its stages, left to right.
\<close>

datatype Stage = Call OperatorCall | Parallel "OperatorCall list"

text \<open>
  Modelled from the spec: the outward events that the missing executor emits (section 6).
\<close>

datatype OutEvent = OutDelta string | OutError string | OutDone

text \<open>
  Modelled from the spec: the steps of a run of the missing executor. A step is an event
  put on the outward stream or the cancellation of one branch of a Parallel stage; every
  step is recorded with the position of the stage that was in flight.
\<close>

datatype Step = Emit OutEvent | Cancel nat

text \<open>
  Modelled from the spec: the backend invocation contract (section 6),
  \<^verbatim>\<open>invoke(modelId, systemPrompt, userContent, sideContext, cancelToken)\<close>. An invocation
  yields its chunks in order and then ends, or fails with a \<^verbatim>\<open>BackendError\<close>, whose
  cause is the second component.
\<close>

type_synonym Backend =
  "string \<Rightarrow> string option \<Rightarrow> string \<Rightarrow> string option \<Rightarrow> string list \<times> string option"

text \<open>
  Modelled from the spec: the invocation the missing executor makes for one operator
  call, with the current buffer as user content (section 4.3).
\<close>

definition invokeCall :: "Backend \<Rightarrow> OperatorCall \<Rightarrow> string \<Rightarrow> string list \<times> string option" where
  "invokeCall backend c currentBuffer =
     backend (model c) (prompt c) currentBuffer (extraInput c)"

text \<open>
  Modelled from the spec: the result of one stage of the missing executor, its output
  buffer or the cause of its failure with the branches cancelled on the way.
\<close>

datatype StageResult = Resolved string | Failed string "nat list"

text \<open>
  Modelled from the spec: the join point of a Parallel stage of the missing executor
  (section 4.3). The branches
  run concurrently on the same buffer and complete in some order, given as the list of
  their positions. Each completed output is stored at the position the branch was
  declared at; the first failure cancels every sibling and fails the stage; when all have
  completed, the outputs are joined in declared order with a newline between them.
\<close>

fun collectBranches ::
  "(string list \<times> string option) list \<Rightarrow> nat list \<Rightarrow> string list \<Rightarrow> StageResult" where
  "collectBranches outcomes [] slots = Resolved (join slots ''\<newline>'')"
| "collectBranches outcomes (i # order) slots =
     (if length outcomes \<le> i then collectBranches outcomes order slots
      else (case outcomes ! i of
              (chunks, Some cause) \<Rightarrow>
                Failed cause (filter (\<lambda>j. j \<noteq> i) [0..<length outcomes])
            | (chunks, None) \<Rightarrow>
                collectBranches outcomes order (slots[i := concat chunks])))"

text \<open>
  Modelled from the spec: a Parallel stage of the missing executor (section 4.3). Every
  branch is invoked on the buffer that enters the stage; the slots start empty.
\<close>

definition runParallel ::
  "Backend \<Rightarrow> nat list \<Rightarrow> string \<Rightarrow> OperatorCall list \<Rightarrow> StageResult" where
  "runParallel backend order currentBuffer branches =
     collectBranches (map (\<lambda>c. invokeCall backend c currentBuffer) branches) order
       (replicate (length branches) [])"

text \<open>
  Modelled from the spec: one stage of the missing executor (section 4.3). A final operator call
  forwards every chunk as a \<^verbatim>\<open>delta\<close>, an intermediate one only accumulates them; a
  final Parallel stage emits its merged output as one \<^verbatim>\<open>delta\<close>.
\<close>

fun runStage ::
  "Backend \<Rightarrow> nat list \<Rightarrow> bool \<Rightarrow> string \<Rightarrow> Stage \<Rightarrow> Step list \<times> StageResult" where
  "runStage backend order final currentBuffer (Call c) =
     (case invokeCall backend c currentBuffer of
        (chunks, err) \<Rightarrow>
          (if final then map (\<lambda>t. Emit (OutDelta t)) chunks else [],
           case err of
             None \<Rightarrow> Resolved (concat chunks)
           | Some cause \<Rightarrow> Failed cause []))"
| "runStage backend order final currentBuffer (Parallel branches) =
     (case runParallel backend order currentBuffer branches of
        Resolved merged \<Rightarrow>
          (if final then [Emit (OutDelta merged)] else [], Resolved merged)
      | Failed cause cancelled \<Rightarrow> (map Cancel cancelled, Failed cause cancelled))"

text \<open>
  Modelled from the spec: the loop of the missing executor (section 4.3). The run goes through the chain
  stage by stage; the buffer a stage resolves to is the input of the next one. After the
  last stage it emits \<^verbatim>\<open>done\<close>; a failure at any stage emits one \<^verbatim>\<open>error\<close> and ends the
  run. \<open>schedule k\<close> is the order in which the branches of the stage at position \<open>k\<close>
  complete.
\<close>

fun executeFrom ::
  "Backend \<Rightarrow> (nat \<Rightarrow> nat list) \<Rightarrow> nat \<Rightarrow> string \<Rightarrow> Stage list \<Rightarrow> (nat \<times> Step) list" where
  "executeFrom backend schedule k currentBuffer [] = [(k, Emit OutDone)]"
| "executeFrom backend schedule k currentBuffer (st # sts) =
     (case runStage backend (schedule k) (sts = []) currentBuffer st of
        (steps, Resolved out) \<Rightarrow>
          map (Pair k) steps @ executeFrom backend schedule (Suc k) out sts
      | (steps, Failed cause cancelled) \<Rightarrow>
          map (Pair k) steps @ [(k, Emit (OutError cause))])"

text \<open>
  Modelled from the spec: a run of the missing executor from the root input, as the list
  of its steps (section 4.3).
\<close>

definition executeSteps ::
  "Backend \<Rightarrow> (nat \<Rightarrow> nat list) \<Rightarrow> string \<Rightarrow> Stage list \<Rightarrow> (nat \<times> Step) list" where
  "executeSteps backend schedule rootInput workflow =
     executeFrom backend schedule 0 rootInput workflow"

text \<open>
  Modelled from the spec: the outward stream of a run of the missing executor, the
  events among its steps (section 6).
\<close>

fun emitted :: "(nat \<times> Step) list \<Rightarrow> OutEvent list" where
  "emitted [] = []"
| "emitted ((k, Emit e) # steps) = e # emitted steps"
| "emitted ((k, Cancel j) # steps) = emitted steps"

text \<open>
  Modelled from the spec: \<^verbatim>\<open>execute(env, ast, rootInput)\<close>, the contract of the missing
  executor (section 4.3): the stream of outward events of a run.
\<close>

definition execute ::
  "Backend \<Rightarrow> (nat \<Rightarrow> nat list) \<Rightarrow> string \<Rightarrow> Stage list \<Rightarrow> OutEvent list" where
  "execute backend schedule rootInput workflow =
     emitted (executeSteps backend schedule rootInput workflow)"

text \<open>
  Modelled from the spec: the buffer that a chain of intermediate stages of the missing
  executor hands to the stage after it, when none of them fails (section 4.3).
\<close>

fun bufferAfter ::
  "Backend \<Rightarrow> (nat \<Rightarrow> nat list) \<Rightarrow> nat \<Rightarrow> string \<Rightarrow> Stage list \<Rightarrow> string option" where
  "bufferAfter backend schedule k currentBuffer [] = Some currentBuffer"
| "bufferAfter backend schedule k currentBuffer (st # sts) =
     (case runStage backend (schedule k) False currentBuffer st of
        (steps, Resolved out) \<Rightarrow> bufferAfter backend schedule (Suc k) out sts
      | (steps, Failed cause cancelled) \<Rightarrow> None)"

text \<open>
  Modelled from the spec: the test for an \<^verbatim>\<open>error\<close> event of the missing executor
  (section 6).
\<close>

fun isError :: "OutEvent \<Rightarrow> bool" where
  "isError (OutError cause) = True"
| "isError (OutDelta t) = False"
| "isError OutDone = False"

text \<open>
  For the examples below: a stub backend in the style of the examples of the
  specification. One model answers \<^verbatim>\<open>X\<close>, one answers \<^verbatim>\<open>Y\<close>, one echoes the user content
  in two chunks, and every other model fails.
\<close>

definition sampleBackend :: Backend where
  "sampleBackend modelId systemPrompt userContent sideContext =
     (if modelId = ''provX:m1'' then ([''X''], None)
      else if modelId = ''provX:m2'' then ([''Y''], None)
      else if modelId = ''provX:echo'' then ([take 2 userContent, drop 2 userContent], None)
      else ([], Some ''unknown model''))"

definition sampleCall :: "string \<Rightarrow> OperatorCall" where
  "sampleCall modelId = \<lparr>model = modelId, prompt = None, extraInput = None\<rparr>"

section \<open>Splitting and joining\<close>

declare splitFrom.simps(2) [simp del]

lemma splitFrom_ne: "splitFrom sep s \<noteq> []"
  by (induction sep s rule: splitFrom.induct) (auto simp: splitFrom.simps(2) split: list.splits)

lemma splitFrom_match:
  "sep \<noteq> [] \<Longrightarrow> startsWith (c # cs) sep \<Longrightarrow>
   splitFrom sep (c # cs) = [] # splitFrom sep (drop (length sep) (c # cs))"
  by (simp add: splitFrom.simps(2))

lemma splitFrom_nomatch_Cons:
  "\<not> (sep \<noteq> [] \<and> startsWith (c # cs) sep) \<Longrightarrow> splitFrom sep cs = p # ps \<Longrightarrow>
   splitFrom sep (c # cs) = (c # p) # ps"
  by (simp add: splitFrom.simps(2))

lemma join_Cons_Cons: "join ((c # p) # ps) sep = c # join (p # ps) sep"
  by (cases ps) auto

lemma join_Nil_Cons: "ps \<noteq> [] \<Longrightarrow> join ([] # ps) sep = sep @ join ps sep"
  by (cases ps) auto

lemma startsWith_decomp: "startsWith s p \<Longrightarrow> p @ drop (length p) s = s"
  unfolding startsWith_def by (metis append_take_drop_id)

lemma join_splitFrom: "join (splitFrom sep s) sep = s"
proof (induction sep s rule: splitFrom.induct)
  case (1 sep)
  then show ?case by simp
next
  case (2 sep c cs)
  show ?case
  proof (cases "sep \<noteq> [] \<and> startsWith (c # cs) sep")
    case True
    then have "join (splitFrom sep (c # cs)) sep
        = sep @ join (splitFrom sep (drop (length sep) (c # cs))) sep"
      by (simp add: splitFrom_match join_Nil_Cons splitFrom_ne)
    also have "\<dots> = sep @ drop (length sep) (c # cs)"
      using 2(1) True by simp
    also have "\<dots> = c # cs"
      using True startsWith_decomp by blast
    finally show ?thesis .
  next
    case False
    obtain p ps where pp: "splitFrom sep cs = p # ps"
      using splitFrom_ne by (cases "splitFrom sep cs") auto
    have "join (p # ps) sep = cs" using 2(2) False pp by simp
    then show ?thesis using splitFrom_nomatch_Cons [OF False pp] by (simp add: join_Cons_Cons)
  qed
qed

lemma splitFrom_short: "length s < length sep \<Longrightarrow> splitFrom sep s = [s]"
proof (induction s)
  case Nil
  then show ?case by simp
next
  case (Cons c cs)
  then have "\<not> startsWith (c # cs) sep" by (auto simp: startsWith_def)
  moreover have "splitFrom sep cs = [cs]" using Cons by simp
  ultimately show ?case using splitFrom_nomatch_Cons by blast
qed

lemma single_piece: "splitFrom sep s = [p] \<Longrightarrow> p = s"
  using join_splitFrom [of sep s] by simp

lemma startsWith_length: "startsWith s p \<Longrightarrow> length p \<le> length s"
  unfolding startsWith_def by (metis length_take min.cobounded1)

lemma startsWith_append_long: "length p \<le> length s \<Longrightarrow> startsWith (s @ t) p = startsWith s p"
  by (simp add: startsWith_def)

lemma startsWith_append: "startsWith s p \<Longrightarrow> startsWith (s @ t) p"
  using startsWith_append_long startsWith_length by blast

text \<open>
  Splitting a text that has grown: the pieces already cut stay, and the scan goes on in the
  last piece followed by the new text.
\<close>

lemma splitFrom_append:
  "sep \<noteq> [] \<Longrightarrow> splitFrom sep (a @ b)
     = butlast (splitFrom sep a) @ splitFrom sep (last (splitFrom sep a) @ b)"
proof (induction sep a rule: splitFrom.induct)
  case (1 sep)
  then show ?case by simp
next
  case (2 sep c cs)
  show ?case
  proof (cases "startsWith (c # cs) sep")
    case True
    let ?a' = "drop (length sep) (c # cs)"
    have len: "length sep \<le> length (c # cs)" using True startsWith_length by blast
    have m1: "splitFrom sep (c # cs) = [] # splitFrom sep ?a'"
      using True 2(3) by (simp add: splitFrom_match)
    have "startsWith ((c # cs) @ b) sep" using True startsWith_append by blast
    moreover have "drop (length sep) (c # cs @ b) = ?a' @ b"
      using len by (metis append_Cons diff_is_0_eq drop0 drop_append)
    ultimately have m2: "splitFrom sep ((c # cs) @ b) = [] # splitFrom sep (?a' @ b)"
      using 2(3) splitFrom_match [of sep c "cs @ b"] by simp
    have ih: "splitFrom sep (?a' @ b)
       = butlast (splitFrom sep ?a') @ splitFrom sep (last (splitFrom sep ?a') @ b)"
      using 2(1) True 2(3) by blast
    show ?thesis
      unfolding m1 m2 ih using splitFrom_ne [of sep ?a'] by simp
  next
    case False
    then have nm: "\<not> (sep \<noteq> [] \<and> startsWith (c # cs) sep)" by simp
    obtain p ps where pp: "splitFrom sep cs = p # ps"
      using splitFrom_ne by (cases "splitFrom sep cs") auto
    have s1: "splitFrom sep (c # cs) = (c # p) # ps"
      using splitFrom_nomatch_Cons [OF nm pp] .
    have ih: "splitFrom sep (cs @ b) = butlast (p # ps) @ splitFrom sep (last (p # ps) @ b)"
      using 2(2) [OF nm 2(3)] pp by simp
    show ?thesis
    proof (cases "ps = []")
      case True
      then have "p = cs" using pp single_piece by blast
      then show ?thesis using s1 True by simp
    next
      case ne: False
      have "\<not> length (c # cs) < length sep"
      proof
        assume "length (c # cs) < length sep"
        then have "length cs < length sep" by simp
        then have "splitFrom sep cs = [cs]" by (rule splitFrom_short)
        then show False using pp ne by simp
      qed
      then have "\<not> startsWith ((c # cs) @ b) sep"
        using False startsWith_append_long [of sep "c # cs" b] by simp
      then have nm2: "\<not> (sep \<noteq> [] \<and> startsWith (c # (cs @ b)) sep)" by simp
      have ih': "splitFrom sep (cs @ b) = p # (butlast ps @ splitFrom sep (last ps @ b))"
        using ih ne by simp
      have "splitFrom sep ((c # cs) @ b) = (c # p) # (butlast ps @ splitFrom sep (last ps @ b))"
        using splitFrom_nomatch_Cons [OF nm2 ih'] by simp
      then show ?thesis using s1 ne by simp
    qed
  qed
qed

section \<open>The read loop\<close>


lemma last_piece_clean:
  "sep \<noteq> [] \<Longrightarrow> last (splitFrom sep s) \<noteq> u @ sep @ v"
proof (induction sep s arbitrary: u v rule: splitFrom.induct)
  case (1 sep)
  then show ?case by simp
next
  case (2 sep c cs)
  show ?case
  proof (cases "startsWith (c # cs) sep")
    case True
    then have "splitFrom sep (c # cs) = [] # splitFrom sep (drop (length sep) (c # cs))"
      using 2(3) by (simp add: splitFrom_match)
    then have "last (splitFrom sep (c # cs)) = last (splitFrom sep (drop (length sep) (c # cs)))"
      by (simp add: splitFrom_ne)
    then show ?thesis using 2(1) True 2(3) by simp
  next
    case False
    then have nm: "\<not> (sep \<noteq> [] \<and> startsWith (c # cs) sep)" by simp
    obtain p ps where pp: "splitFrom sep cs = p # ps"
      using splitFrom_ne by (cases "splitFrom sep cs") auto
    have s1: "splitFrom sep (c # cs) = (c # p) # ps"
      using splitFrom_nomatch_Cons [OF nm pp] .
    have ih: "\<And>u v. last (p # ps) \<noteq> u @ sep @ v"
      using 2(2) [OF nm 2(3)] pp by simp
    show ?thesis
    proof (cases "ps = []")
      case True
      then have pcs: "p = cs" using pp single_piece by blast
      show ?thesis
      proof
        assume eq: "last (splitFrom sep (c # cs)) = u @ sep @ v"
        then have e: "c # cs = u @ sep @ v" using s1 True pcs by simp
        show False
        proof (cases u)
          case Nil
          then have "startsWith (c # cs) sep" using e by (simp add: startsWith_def)
          then show False using False by simp
        next
          case (Cons x u')
          then have "cs = u' @ sep @ v" using e by simp
          then show False using ih [of u' v] True pcs by simp
        qed
      qed
    next
      case ne: False
      then show ?thesis using s1 ih by simp
    qed
  qed
qed

lemma splitFrom_clean: "sep \<noteq> [] \<Longrightarrow> (\<And>u v. s \<noteq> u @ sep @ v) \<Longrightarrow> splitFrom sep s = [s]"
proof (induction s)
  case Nil
  then show ?case by simp
next
  case (Cons c cs)
  have "\<not> startsWith (c # cs) sep"
  proof
    assume "startsWith (c # cs) sep"
    then have "c # cs = [] @ sep @ drop (length sep) (c # cs)"
      using startsWith_decomp [of "c # cs" sep] by simp
    then show False using Cons.prems(2) by blast
  qed
  then have nm: "\<not> (sep \<noteq> [] \<and> startsWith (c # cs) sep)" by simp
  have "\<And>u v. cs \<noteq> u @ sep @ v"
  proof
    fix u v assume "cs = u @ sep @ v"
    then have "c # cs = (c # u) @ sep @ v" by simp
    then show False using Cons.prems(2) by blast
  qed
  then have "splitFrom sep cs = [cs]" using Cons.IH Cons.prems(1) by blast
  then show ?case using splitFrom_nomatch_Cons [OF nm] by blast
qed

lemma splitFrom_last_piece:
  "sep \<noteq> [] \<Longrightarrow> splitFrom sep (last (splitFrom sep s)) = [last (splitFrom sep s)]"
  using splitFrom_clean last_piece_clean by blast

lemma parseSseLines_events: "events (parseSseLines b) = butlast (splitFrom ''\<newline>\<newline>'' b)"
  by (simp add: parseSseLines_def split_def Let_def)

lemma parseSseLines_rest: "rest (parseSseLines b) = last (splitFrom ''\<newline>\<newline>'' b)"
  by (simp add: parseSseLines_def split_def Let_def splitFrom_ne)

lemma events_rest_Nil: "events (parseSseLines (rest (parseSseLines b))) = []"
  by (simp add: parseSseLines_events parseSseLines_rest splitFrom_last_piece)

lemma events_append:
  "events (parseSseLines (a @ b))
     = events (parseSseLines a) @ events (parseSseLines (rest (parseSseLines a) @ b))"
  unfolding parseSseLines_events parseSseLines_rest
  by (subst splitFrom_append) (simp_all add: butlast_append splitFrom_ne)

lemma readLoop_buffer:
  "events (parseSseLines buffer) = [] \<Longrightarrow>
   readLoop jp buffer chunks = streamMessages jp (buffer @ concat chunks)"
proof (induction chunks arbitrary: buffer)
  case Nil
  then show ?case by (simp add: streamMessages_def)
next
  case (Cons v vs)
  let ?r = "parseSseLines (buffer @ v)"
  have ih: "readLoop jp (rest ?r) vs = streamMessages jp (rest ?r @ concat vs)"
    using Cons.IH [of "rest ?r"] events_rest_Nil by blast
  have "events (parseSseLines ((buffer @ v) @ concat vs))
      = events ?r @ events (parseSseLines (rest ?r @ concat vs))"
    by (rule events_append)
  then show ?case using ih by (simp add: streamMessages_def Let_def)
qed

lemma readLoop_whole: "readLoop jp [] chunks = streamMessages jp (concat chunks)"
  using readLoop_buffer [of "[]" jp chunks] by (simp add: parseSseLines_events)

lemma readLoop_one: "readLoop jp [] [s] = streamMessages jp s"
  using readLoop_whole [of jp "[s]"] by simp

lemma join_snoc: "xs \<noteq> [] \<Longrightarrow> join (xs @ [y]) sep = join xs sep @ sep @ y"
  by (induction xs sep rule: join.induct) auto

lemma parts_rebuild:
  "(if butlast ps = [] then last ps else join (butlast ps) sep @ sep @ last ps) = join ps sep"
  if "ps \<noteq> []"
proof (cases "butlast ps = []")
  case True
  then have "ps = [last ps]" using that by (metis append_butlast_last_id append_Nil)
  then have "join ps sep = last ps" by (metis join.simps(2))
  then show ?thesis using True by simp
next
  case False
  have "join (butlast ps @ [last ps]) sep = join (butlast ps) sep @ sep @ last ps"
    using False by (rule join_snoc)
  then show ?thesis using False that by simp
qed

section \<open>Output of the flows page\<close>

lemma onEvent_append: "onEvent e p = p @ onEvent e []"
  by (cases e) simp_all

lemma fold_onEvent: "fold onEvent evts p = p @ fold onEvent evts []"
proof (induction evts arbitrary: p)
  case Nil
  then show ?case by simp
next
  case (Cons e evts)
  have "fold onEvent (e # evts) p = fold onEvent evts (onEvent e p)" by simp
  also have "\<dots> = onEvent e p @ fold onEvent evts []" by (rule Cons.IH)
  also have "\<dots> = p @ onEvent e [] @ fold onEvent evts []"
    using onEvent_append [of e p] by simp
  also have "onEvent e [] @ fold onEvent evts [] = fold onEvent evts (onEvent e [])"
    by (rule Cons.IH [symmetric])
  finally show ?case by simp
qed

lemma runOutput_append: "runOutput (a @ b) = runOutput a @ runOutput b"
  unfolding runOutput_def using fold_onEvent [of b "fold onEvent a []"] by simp

lemma runOutput_deltas: "runOutput (map Delta texts) = concat texts"
proof (induction texts)
  case Nil
  then show ?case by (simp add: runOutput_def)
next
  case (Cons t texts)
  have "runOutput (map Delta (t # texts)) = runOutput ([Delta t] @ map Delta texts)" by simp
  also have "\<dots> = runOutput [Delta t] @ runOutput (map Delta texts)"
    by (rule runOutput_append)
  finally show ?case using Cons.IH by (simp add: runOutput_def)
qed

section \<open>Blocks without a payload\<close>

lemma trimEnd_prefix: "\<exists>t. l = trimEnd l @ t"
proof -
  have "l = rev (dropWhile is_ws (rev l)) @ rev (takeWhile is_ws (rev l))"
    by (metis rev_append rev_rev_ident takeWhile_dropWhile_id)
  then have "l = trimEnd l @ rev (takeWhile is_ws (rev l))" by (simp add: trimEnd_def)
  then show ?thesis ..
qed

lemma startsWith_trimEnd: "startsWith (trimEnd l) p \<Longrightarrow> startsWith l p"
  using trimEnd_prefix [of l] startsWith_append by metis

lemma blockLine_no_data:
  "\<not> startsWith l ''data:'' \<Longrightarrow> snd (blockLine l (ev, dat)) = dat"
  using startsWith_trimEnd [of l "''data:''"] by (auto simp: blockLine_def Let_def)

lemma fold_blockLine_no_data:
  "(\<And>l. l \<in> set ls \<Longrightarrow> \<not> startsWith l ''data:'') \<Longrightarrow> snd (fold blockLine ls (ev, dat)) = dat"
proof (induction ls arbitrary: ev)
  case Nil
  then show ?case by simp
next
  case (Cons l ls)
  obtain ev' dat' where st: "blockLine l (ev, dat) = (ev', dat')" by (cases "blockLine l (ev, dat)")
  have "dat' = dat" using blockLine_no_data [of l ev dat] Cons.prems st by simp
  then show ?case using Cons st by simp
qed

lemma no_data_line_None: "\<not> hasDataLine block \<Longrightarrow> parseEventBlock block = None"
proof -
  assume "\<not> hasDataLine block"
  then have "\<And>l. l \<in> set (split block ''\<newline>'') \<Longrightarrow> \<not> startsWith l ''data:''"
    by (auto simp: hasDataLine_def list_ex_iff)
  then have "snd (fold blockLine (split block ''\<newline>'') (''message'', [])) = []"
    by (rule fold_blockLine_no_data)
  then show ?thesis by (auto simp: parseEventBlock_def split: prod.splits)
qed

lemma malformed_yields_nothing: "malformedBlock jp block \<Longrightarrow> yieldBlock jp block = []"
  using no_data_line_None [of block]
  by (auto simp: malformedBlock_def yieldBlock_def split: option.splits)

lemma concat_map_filter_nonempty:
  "(\<And>x. \<not> P x \<Longrightarrow> f x = []) \<Longrightarrow> concat (map f (filter P xs)) = concat (map f xs)"
  by (induction xs) auto

section \<open>Lines and blocks\<close>

lemma startsWith_Cons_hd: "sep \<noteq> [] \<Longrightarrow> startsWith (c # cs) sep \<Longrightarrow> c = hd sep"
  by (cases sep) (auto simp: startsWith_def)

lemma splitFrom_prepend:
  "sep \<noteq> [] \<Longrightarrow> hd sep \<notin> set l \<Longrightarrow>
   splitFrom sep (l @ t) = (l @ hd (splitFrom sep t)) # tl (splitFrom sep t)"
proof (induction l)
  case Nil
  then show ?case using splitFrom_ne [of sep t] by simp
next
  case (Cons c l)
  have "\<not> startsWith (c # (l @ t)) sep"
    using Cons.prems startsWith_Cons_hd [of sep c "l @ t"] by auto
  then have nm: "\<not> (sep \<noteq> [] \<and> startsWith (c # (l @ t)) sep)" by simp
  have "splitFrom sep (l @ t) = (l @ hd (splitFrom sep t)) # tl (splitFrom sep t)"
    using Cons by simp
  then show ?case using splitFrom_nomatch_Cons [OF nm] by simp
qed

lemma splitFrom_free: "sep \<noteq> [] \<Longrightarrow> hd sep \<notin> set l \<Longrightarrow> splitFrom sep l = [l]"
  using splitFrom_prepend [of sep l "[]"] by simp

lemma splitFrom_char_pieces: "p \<in> set (splitFrom [x] s) \<Longrightarrow> x \<notin> set p"
proof (induction s arbitrary: p)
  case Nil
  then show ?case by simp
next
  case (Cons c cs)
  obtain q qs where qq: "splitFrom [x] cs = q # qs"
    using splitFrom_ne by (cases "splitFrom [x] cs") auto
  show ?case
  proof (cases "c = x")
    case True
    then have "splitFrom [x] (c # cs) = [] # splitFrom [x] cs"
      using splitFrom_match [of "[x]" c cs] by (simp add: startsWith_def)
    then show ?thesis using Cons by auto
  next
    case False
    then have nm: "\<not> ([x] \<noteq> [] \<and> startsWith (c # cs) [x])" by (simp add: startsWith_def)
    have "splitFrom [x] (c # cs) = (c # q) # qs"
      using splitFrom_nomatch_Cons [OF nm qq] .
    then show ?thesis using Cons qq False by auto
  qed
qed

text \<open>The lines of a text that was joined from lines are these lines.\<close>

lemma splitFrom_join_lines:
  "g \<noteq> [] \<Longrightarrow> (\<And>l. l \<in> set g \<Longrightarrow> x \<notin> set l) \<Longrightarrow> splitFrom [x] (join g [x]) = g"
proof (induction g "[x]" rule: join.induct)
  case 1
  then show ?case by simp
next
  case (2 l)
  then show ?case using splitFrom_free [of "[x]" l] by simp
next
  case (3 l m ls)
  have "splitFrom [x] (l @ [x] @ join (m # ls) [x])
      = (l @ hd (splitFrom [x] ([x] @ join (m # ls) [x]))) # tl (splitFrom [x] ([x] @ join (m # ls) [x]))"
    using 3(3) by (intro splitFrom_prepend) auto
  moreover have "splitFrom [x] ([x] @ join (m # ls) [x]) = [] # splitFrom [x] (join (m # ls) [x])"
    using splitFrom_match [of "[x]" x "join (m # ls) [x]"] by (simp add: startsWith_def)
  moreover have "splitFrom [x] (join (m # ls) [x]) = m # ls"
    using 3 by auto
  ultimately show ?case by simp
qed

lemma blocksOfLines_ne: "blocksOfLines L \<noteq> []"
  by (induction L rule: blocksOfLines.induct) (auto split: list.splits)

lemma blocksOfLines_groups:
  "L \<noteq> [] \<Longrightarrow> g \<in> set (blocksOfLines L) \<Longrightarrow> g \<noteq> [] \<and> set g \<subseteq> set L"
proof (induction L arbitrary: g rule: blocksOfLines.induct)
  case 1
  then show ?case by simp
next
  case (2 l)
  then show ?case by simp
next
  case (3 l m ls)
  show ?case
  proof (cases "m = [] \<and> ls \<noteq> []")
    case True
    then show ?thesis using 3(1) [of g] 3(4) by auto
  next
    case False
    obtain h hs where hh: "blocksOfLines (m # ls) = h # hs"
      using blocksOfLines_ne by (cases "blocksOfLines (m # ls)") auto
    have b: "blocksOfLines (l # m # ls) = (l # h) # hs" using False hh by auto
    have ih: "\<And>g. g \<in> set (h # hs) \<Longrightarrow> g \<noteq> [] \<and> set g \<subseteq> set (m # ls)"
      using 3(2) [OF False] hh by simp
    show ?thesis
    proof (cases "g = l # h")
      case True
      then show ?thesis using ih [of h] by auto
    next
      case ng: False
      then have "g \<in> set hs" using 3(4) b by simp
      then show ?thesis using ih [of g] by auto
    qed
  qed
qed

text \<open>The blocks of a text are the groups of its lines, joined again.\<close>

lemma splitFrom_blank_join:
  "L \<noteq> [] \<Longrightarrow> (\<And>l. l \<in> set L \<Longrightarrow> x \<notin> set l) \<Longrightarrow>
   splitFrom [x, x] (join L [x]) = map (\<lambda>g. join g [x]) (blocksOfLines L)"
proof (induction L rule: blocksOfLines.induct)
  case 1
  then show ?case by simp
next
  case (2 l)
  then show ?case using splitFrom_free [of "[x, x]" l] by simp
next
  case (3 l m ls)
  let ?t = "join (m # ls) [x]"
  have pre: "splitFrom [x, x] (l @ [x] @ ?t)
      = (l @ hd (splitFrom [x, x] ([x] @ ?t))) # tl (splitFrom [x, x] ([x] @ ?t))"
    using 3(4) by (intro splitFrom_prepend) auto
  have free: "\<And>k. k \<in> set (m # ls) \<Longrightarrow> x \<notin> set k" using 3(4) by simp
  show ?case
  proof (cases "m = [] \<and> ls \<noteq> []")
    case True
    then have t: "?t = [x] @ join ls [x]" by (simp add: join_Nil_Cons)
    have "splitFrom [x, x] (x # x # join ls [x]) = [] # splitFrom [x, x] (join ls [x])"
      using splitFrom_match [of "[x, x]" x "x # join ls [x]"] by (simp add: startsWith_def)
    moreover have "splitFrom [x, x] (join ls [x]) = map (\<lambda>g. join g [x]) (blocksOfLines ls)"
      using 3(1) [OF True] True free by simp
    ultimately show ?thesis using pre t True by simp
  next
    case False
    have "\<not> startsWith (x # ?t) [x, x]"
    proof
      assume "startsWith (x # ?t) [x, x]"
      then obtain r where r: "?t = x # r"
        by (cases ?t) (auto simp: startsWith_def)
      show False
      proof (cases m)
        case Nil
        then have "ls = []" using False by simp
        then show False using r Nil by simp
      next
        case (Cons a m')
        then have "a = x" using r by (cases ls) auto
        then show False using free [of m] Cons by simp
      qed
    qed
    then have nm: "\<not> ([x, x] \<noteq> [] \<and> startsWith (x # ?t) [x, x])" by simp
    obtain h hs where hh: "blocksOfLines (m # ls) = h # hs"
      using blocksOfLines_ne by (cases "blocksOfLines (m # ls)") auto
    have hne: "h \<noteq> []" using blocksOfLines_groups [of "m # ls" h] hh by simp
    have ih: "splitFrom [x, x] ?t = join h [x] # map (\<lambda>g. join g [x]) hs"
      using 3(2) [OF False] free hh by simp
    have "splitFrom [x, x] (x # ?t) = (x # join h [x]) # map (\<lambda>g. join g [x]) hs"
      using splitFrom_nomatch_Cons [OF nm ih] .
    then have "splitFrom [x, x] (l @ [x] @ ?t) = (l @ x # join h [x]) # map (\<lambda>g. join g [x]) hs"
      using pre by simp
    moreover have "join (l # h) [x] = l @ x # join h [x]"
      using hne by (cases h) auto
    moreover have "blocksOfLines (l # m # ls) = (l # h) # hs" using False hh by auto
    ultimately show ?thesis by simp
  qed
qed

lemma blocksOfLines_rel:
  "list_all2 R L1 L2 \<Longrightarrow> (\<And>a b. R a b \<Longrightarrow> (a = [] \<longleftrightarrow> b = [])) \<Longrightarrow>
   list_all2 (list_all2 R) (blocksOfLines L1) (blocksOfLines L2)"
proof (induction L1 arbitrary: L2 rule: blocksOfLines.induct)
  case 1
  then show ?case by simp
next
  case (2 l)
  then show ?case by (auto simp: list_all2_Cons1)
next
  case (3 l m ls)
  from 3(3) obtain l' m' ls' where L2: "L2 = l' # m' # ls'"
    and rl: "R l l'" and rm: "R m m'" and rls: "list_all2 R ls ls'"
    by (auto simp: list_all2_Cons1)
  have em: "m = [] \<longleftrightarrow> m' = []" using rm 3(4) by blast
  have els: "ls = [] \<longleftrightarrow> ls' = []" using rls by (cases ls; cases ls') auto
  show ?case
  proof (cases "m = [] \<and> ls \<noteq> []")
    case True
    have "list_all2 (list_all2 R) (blocksOfLines ls) (blocksOfLines ls')"
      using 3(1) [OF True rls] 3(4) by blast
    moreover have "blocksOfLines (l # m # ls) = [l] # blocksOfLines ls" using True by simp
    moreover have "blocksOfLines (l' # m' # ls') = [l'] # blocksOfLines ls'"
      using True em els by simp
    ultimately show ?thesis using rl L2 by simp
  next
    case False
    obtain h hs where hh: "blocksOfLines (m # ls) = h # hs"
      using blocksOfLines_ne by (cases "blocksOfLines (m # ls)") auto
    obtain h' hs' where hh': "blocksOfLines (m' # ls') = h' # hs'"
      using blocksOfLines_ne by (cases "blocksOfLines (m' # ls')") auto
    have "list_all2 R (m # ls) (m' # ls')" using rm rls by simp
    then have "list_all2 (list_all2 R) (h # hs) (h' # hs')"
      using 3(2) [OF False, of "m' # ls'"] 3(4) hh hh' by simp
    moreover have "blocksOfLines (l # m # ls) = (l # h) # hs" using False hh by auto
    moreover have "blocksOfLines (l' # m' # ls') = (l' # h') # hs'"
      using False em els hh' by auto
    ultimately show ?thesis using rl L2 by simp
  qed
qed

lemma trimEnd_Cons: "\<not> is_ws c \<Longrightarrow> trimEnd (c # s) = c # trimEnd s"
  by (simp add: trimEnd_def dropWhile_append)

lemma trimEnd_event: "trimEnd (''event:'' @ r) = ''event:'' @ trimEnd r"
  by (simp add: trimEnd_Cons is_ws_def)

lemma startsWith_event_trimEnd: "startsWith a ''event:'' \<Longrightarrow> startsWith (trimEnd a) ''event:''"
proof -
  assume "startsWith a ''event:''"
  then have "a = ''event:'' @ drop (length ''event:'') a"
    using startsWith_decomp [of a "''event:''"] by simp
  then have "trimEnd a = ''event:'' @ trimEnd (drop (length ''event:'') a)"
    using trimEnd_event by metis
  then show ?thesis by (simp add: startsWith_def)
qed

lemma blockLine_header: "startsWith a ''event:'' \<Longrightarrow> snd (blockLine a (ev, dat)) = dat"
  using startsWith_event_trimEnd [of a]
  by (auto simp: blockLine_def Let_def)

lemma blockLine_data_only: "snd (blockLine a (ev, dat)) = snd (blockLine a (ev', dat))"
  by (simp add: blockLine_def Let_def)

lemma blockLine_rel:
  "sameLineOrHeader a b \<Longrightarrow> snd (blockLine a (ev, dat)) = snd (blockLine b (ev', dat))"
  unfolding sameLineOrHeader_def
  using blockLine_header [of a ev dat] blockLine_header [of b ev' dat]
        blockLine_data_only [of a ev dat ev'] by auto

lemma fold_blockLine_rel:
  "list_all2 sameLineOrHeader g1 g2 \<Longrightarrow>
   snd (fold blockLine g1 (ev, dat)) = snd (fold blockLine g2 (ev', dat))"
proof (induction g1 g2 arbitrary: ev ev' dat rule: list_all2_induct)
  case Nil
  then show ?case by simp
next
  case (Cons a g1 b g2)
  obtain e1 d1 where s1: "blockLine a (ev, dat) = (e1, d1)" by (cases "blockLine a (ev, dat)")
  obtain e2 d2 where s2: "blockLine b (ev', dat) = (e2, d2)" by (cases "blockLine b (ev', dat)")
  have "d1 = d2" using blockLine_rel [OF Cons.hyps(1), of ev dat ev'] s1 s2 by simp
  then show ?case using Cons.IH [of e1 d1 e2] s1 s2 by simp
qed

lemma parseEventBlock_data:
  "map_option data (parseEventBlock b)
     = (let d = snd (fold blockLine (split b ''\<newline>'') (''message'', []))
        in if d = [] then None else Some d)"
  by (simp add: parseEventBlock_def Let_def split: prod.splits)

lemma yieldBlock_data:
  "yieldBlock jp b = (case map_option data (parseEventBlock b) of
      None \<Rightarrow> [] | Some d \<Rightarrow> (case jp d of None \<Rightarrow> [] | Some msg \<Rightarrow> [msg]))"
  by (simp add: yieldBlock_def split: option.splits)

lemma sameLineOrHeader_empty: "sameLineOrHeader a b \<Longrightarrow> (a = [] \<longleftrightarrow> b = [])"
  by (auto simp: sameLineOrHeader_def startsWith_def)

lemma yieldBlock_rel:
  assumes "list_all2 sameLineOrHeader g1 g2" and "g1 \<noteq> []" and "g2 \<noteq> []"
    and "\<And>l. l \<in> set g1 \<Longrightarrow> CHR ''\<newline>'' \<notin> set l"
    and "\<And>l. l \<in> set g2 \<Longrightarrow> CHR ''\<newline>'' \<notin> set l"
  shows "yieldBlock jp (join g1 ''\<newline>'') = yieldBlock jp (join g2 ''\<newline>'')"
proof -
  have "split (join g1 ''\<newline>'') ''\<newline>'' = g1"
    using splitFrom_join_lines [of g1 "CHR ''\<newline>''"] assms by (simp add: split_def)
  moreover have "split (join g2 ''\<newline>'') ''\<newline>'' = g2"
    using splitFrom_join_lines [of g2 "CHR ''\<newline>''"] assms by (simp add: split_def)
  ultimately have "map_option data (parseEventBlock (join g1 ''\<newline>''))
      = map_option data (parseEventBlock (join g2 ''\<newline>''))"
    unfolding parseEventBlock_data
    using fold_blockLine_rel [OF assms(1), of "''message''" "[]" "''message''"] by simp
  then show ?thesis by (simp add: yieldBlock_data)
qed

lemma list_all2_eq_map: "list_all2 (\<lambda>x y. f x = g y) xs ys \<Longrightarrow> map f xs = map g ys"
  by (induction xs ys rule: list_all2_induct) auto

lemma list_all2_butlast: "list_all2 P xs ys \<Longrightarrow> list_all2 P (butlast xs) (butlast ys)"
  by (simp add: butlast_conv_take list_all2_lengthD)

lemma streamMessages_headers:
  assumes "sameExceptEventHeaders s t"
  shows "streamMessages jp s = streamMessages jp t"
proof -
  let ?n = "CHR ''\<newline>''"
  let ?L1 = "splitFrom [?n] s" and ?L2 = "splitFrom [?n] t"
  have rel: "list_all2 sameLineOrHeader ?L1 ?L2"
    using assms by (simp add: sameExceptEventHeaders_def split_def)
  have f1: "\<And>l. l \<in> set ?L1 \<Longrightarrow> ?n \<notin> set l" by (rule splitFrom_char_pieces)
  have f2: "\<And>l. l \<in> set ?L2 \<Longrightarrow> ?n \<notin> set l" by (rule splitFrom_char_pieces)
  have b1: "splitFrom [?n, ?n] (join ?L1 [?n]) = map (\<lambda>g. join g [?n]) (blocksOfLines ?L1)"
    using splitFrom_ne f1 by (rule splitFrom_blank_join)
  have b2: "splitFrom [?n, ?n] (join ?L2 [?n]) = map (\<lambda>g. join g [?n]) (blocksOfLines ?L2)"
    using splitFrom_ne f2 by (rule splitFrom_blank_join)
  have s1: "splitFrom [?n, ?n] s = map (\<lambda>g. join g [?n]) (blocksOfLines ?L1)"
    using b1 by (simp add: join_splitFrom)
  have s2: "splitFrom [?n, ?n] t = map (\<lambda>g. join g [?n]) (blocksOfLines ?L2)"
    using b2 by (simp add: join_splitFrom)
  have grp: "list_all2 (list_all2 sameLineOrHeader) (blocksOfLines ?L1) (blocksOfLines ?L2)"
    using rel sameLineOrHeader_empty by (rule blocksOfLines_rel)
  have "list_all2 (\<lambda>g1 g2. yieldBlock jp (join g1 [?n]) = yieldBlock jp (join g2 [?n]))
          (blocksOfLines ?L1) (blocksOfLines ?L2)"
  proof (rule list.rel_mono_strong [OF grp])
    fix g1 g2
    assume r: "list_all2 sameLineOrHeader g1 g2"
      and m1: "g1 \<in> set (blocksOfLines ?L1)" and m2: "g2 \<in> set (blocksOfLines ?L2)"
    have g1: "g1 \<noteq> [] \<and> set g1 \<subseteq> set ?L1"
      using splitFrom_ne m1 by (rule blocksOfLines_groups)
    have g2: "g2 \<noteq> [] \<and> set g2 \<subseteq> set ?L2"
      using splitFrom_ne m2 by (rule blocksOfLines_groups)
    show "yieldBlock jp (join g1 [?n]) = yieldBlock jp (join g2 [?n])"
      using r g1 g2 f1 f2 by (intro yieldBlock_rel) auto
  qed
  then have "list_all2 (\<lambda>g1 g2. yieldBlock jp (join g1 [?n]) = yieldBlock jp (join g2 [?n]))
          (butlast (blocksOfLines ?L1)) (butlast (blocksOfLines ?L2))"
    by (rule list_all2_butlast)
  then have "map (\<lambda>g. yieldBlock jp (join g [?n])) (butlast (blocksOfLines ?L1))
           = map (\<lambda>g. yieldBlock jp (join g [?n])) (butlast (blocksOfLines ?L2))"
    by (rule list_all2_eq_map)
  then have "map (yieldBlock jp) (butlast (splitFrom [?n, ?n] s))
           = map (yieldBlock jp) (butlast (splitFrom [?n, ?n] t))"
    unfolding s1 s2 by (simp add: map_butlast [symmetric] comp_def)
  then show ?thesis
    by (simp add: streamMessages_def parseSseLines_events)
qed

lemma fetchSse_headers:
  assumes "sameExceptEventHeaders (concat chunks1) (concat chunks2)"
  shows "fetchSse jp (res\<lparr>body := Some chunks1\<rparr>) = fetchSse jp (res\<lparr>body := Some chunks2\<rparr>)"
proof -
  have "readLoop jp [] chunks1 = readLoop jp [] chunks2"
    using streamMessages_headers [OF assms, of jp] by (simp only: readLoop_whole)
  then show ?thesis by (simp add: fetchSse_def)
qed

section \<open>The executor\<close>

lemma collectBranches_ok:
  "(\<And>i. i < length outcomes \<Longrightarrow> snd (outcomes ! i) = None) \<Longrightarrow>
   collectBranches outcomes order slots
     = Resolved (join (fold (\<lambda>i s. if length outcomes \<le> i then s
                                     else s[i := concat (fst (outcomes ! i))]) order slots) ''\<newline>'')"
proof (induction order arbitrary: slots)
  case Nil
  then show ?case by simp
next
  case (Cons i order)
  show ?case
  proof (cases "length outcomes \<le> i")
    case True
    then show ?thesis using Cons by simp
  next
    case False
    then have "snd (outcomes ! i) = None" using Cons.prems by simp
    then obtain chunks where "outcomes ! i = (chunks, None)" by (cases "outcomes ! i") auto
    then show ?thesis using False Cons by simp
  qed
qed

lemma fold_slots_length:
  "length (fold (\<lambda>i s. if n \<le> i then s else s[i := f i]) order slots) = length slots"
  by (induction order arbitrary: slots) auto

lemma fold_slots_nth:
  "j < length slots \<Longrightarrow> length slots = n \<Longrightarrow>
   fold (\<lambda>i s. if n \<le> i then s else s[i := f i]) order slots ! j
     = (if j \<in> set order then f j else slots ! j)"
proof (induction order arbitrary: slots)
  case Nil
  then show ?case by simp
next
  case (Cons i order)
  then show ?case by (auto simp: nth_list_update)
qed

lemma fold_slots_all:
  assumes "set order = {0..<n}" and "length slots = n"
  shows "fold (\<lambda>i s. if n \<le> i then s else s[i := f i]) order slots = map f [0..<n]"
proof (rule nth_equalityI)
  show "length (fold (\<lambda>i s. if n \<le> i then s else s[i := f i]) order slots) = length (map f [0..<n])"
    using assms by (simp add: fold_slots_length)
next
  fix j
  assume "j < length (fold (\<lambda>i s. if n \<le> i then s else s[i := f i]) order slots)"
  then have j: "j < n" using assms by (simp add: fold_slots_length)
  then show "fold (\<lambda>i s. if n \<le> i then s else s[i := f i]) order slots ! j = map f [0..<n] ! j"
    using assms fold_slots_nth [of j slots n f order] by simp
qed

lemma runStage_intermediate_steps:
  "runStage backend order False buf st = (steps, Resolved out) \<Longrightarrow> steps = []"
  by (cases st) (auto split: prod.splits option.splits StageResult.splits)

lemma runStage_intermediate_no_emit:
  "runStage backend order False buf st = (steps, r) \<Longrightarrow> Emit e \<notin> set steps"
  by (cases st) (auto split: prod.splits option.splits StageResult.splits)

lemma executeFrom_after:
  "bufferAfter backend schedule k buf0 pre = Some buf \<Longrightarrow>
   executeFrom backend schedule k buf0 (pre @ st # post)
     = executeFrom backend schedule (k + length pre) buf (st # post)"
proof (induction pre arbitrary: k buf0)
  case Nil
  then show ?case by simp
next
  case (Cons s pre)
  obtain steps r where rs: "runStage backend (schedule k) False buf0 s = (steps, r)"
    by (cases "runStage backend (schedule k) False buf0 s")
  show ?case
  proof (cases r)
    case (Resolved out)
    then have "steps = []" using rs runStage_intermediate_steps by blast
    moreover have "bufferAfter backend schedule (Suc k) out pre = Some buf"
      using Cons.prems rs Resolved by simp
    ultimately show ?thesis using Cons.IH [of "Suc k" out] rs Resolved by simp
  next
    case (Failed cause cancelled)
    then show ?thesis using Cons.prems rs by simp
  qed
qed

lemma collectBranches_failed:
  assumes "i \<in> set order" and "i < length outcomes" and "snd (outcomes ! i) = Some cause"
  shows "\<exists>f c. f < length outcomes \<and> snd (outcomes ! f) = Some c
           \<and> collectBranches outcomes order slots
               = Failed c (filter (\<lambda>j. j \<noteq> f) [0..<length outcomes])"
  using assms(1)
proof (induction order arbitrary: slots)
  case Nil
  then show ?case by simp
next
  case (Cons a order)
  show ?case
  proof (cases "length outcomes \<le> a")
    case True
    then have "i \<in> set order" using Cons.prems assms(2) by auto
    then show ?thesis using Cons.IH True by simp
  next
    case False
    obtain chunks err where o: "outcomes ! a = (chunks, err)" by (cases "outcomes ! a")
    show ?thesis
    proof (cases err)
      case None
      then have "i \<noteq> a" using o assms(3) by auto
      then have "i \<in> set order" using Cons.prems by simp
      then show ?thesis using Cons.IH False o None by simp
    next
      case (Some c)
      then have "collectBranches outcomes (a # order) slots
          = Failed c (filter (\<lambda>j. j \<noteq> a) [0..<length outcomes])"
        using False o by simp
      moreover have "a < length outcomes" using False by simp
      moreover have "snd (outcomes ! a) = Some c" using o Some by simp
      ultimately show ?thesis by blast
    qed
  qed
qed

lemma executeFrom_delta:
  "(j, Emit (OutDelta t)) \<in> set (executeFrom backend schedule k buf0 workflow) \<Longrightarrow>
   Suc j = k + length workflow
   \<and> (\<exists>buf. bufferAfter backend schedule k buf0 (butlast workflow) = Some buf
        \<and> Emit (OutDelta t) \<in> set (fst (runStage backend (schedule j) True buf (last workflow))))"
proof (induction workflow arbitrary: k buf0)
  case Nil
  then show ?case by simp
next
  case (Cons st sts)
  show ?case
  proof (cases "sts = []")
    case True
    obtain steps r where rs: "runStage backend (schedule k) True buf0 st = (steps, r)"
      by (cases "runStage backend (schedule k) True buf0 st")
    have "(j, Emit (OutDelta t)) \<in> set (map (Pair k) steps)"
      using Cons.prems True rs by (cases r) auto
    then have "j = k \<and> Emit (OutDelta t) \<in> set steps" by auto
    then show ?thesis using True rs by simp
  next
    case False
    obtain steps r where rs: "runStage backend (schedule k) False buf0 st = (steps, r)"
      by (cases "runStage backend (schedule k) False buf0 st")
    have ne: "(j, Emit (OutDelta t)) \<notin> set (map (Pair k) steps)"
      using runStage_intermediate_no_emit [OF rs] by auto
    show ?thesis
    proof (cases r)
      case (Resolved out)
      then have "(j, Emit (OutDelta t)) \<in> set (executeFrom backend schedule (Suc k) out sts)"
        using Cons.prems False rs ne by simp
      then have "Suc j = Suc k + length sts
        \<and> (\<exists>buf. bufferAfter backend schedule (Suc k) out (butlast sts) = Some buf
            \<and> Emit (OutDelta t) \<in> set (fst (runStage backend (schedule j) True buf (last sts))))"
        by (rule Cons.IH)
      then show ?thesis using False rs Resolved by auto
    next
      case (Failed cause cancelled)
      then show ?thesis using Cons.prems False rs ne by simp
    qed
  qed
qed

section \<open>Run-time messages\<close>

lemma toJson_isSseMessage: "isSseMessage (toJson m)"
  by (cases m) (simp_all add: isSseMessage_def toJson_def hasExactly_def)

lemma yieldBlock_set:
  "set (yieldBlock jp b) = {v. \<exists>p. parseEventBlock b = Some p \<and> jp (data p) = Some v}"
proof (cases "parseEventBlock b")
  case None
  then show ?thesis by (simp add: yieldBlock_def)
next
  case (Some p)
  then show ?thesis by (cases "jp (data p)") (auto simp: yieldBlock_def)
qed

lemma fetchSse_Inr:
  "fetchSse jp res = Inr msgs \<Longrightarrow>
   \<exists>chunks. ok res \<and> body res = Some chunks \<and> msgs = streamMessages jp (concat chunks)"
  by (auto simp: fetchSse_def readLoop_whole split: if_splits option.splits)

lemma streamMessages_set:
  "set (streamMessages jp s)
     = {v. \<exists>b \<in> set (events (parseSseLines s)). \<exists>p. parseEventBlock b = Some p \<and> jp (data p) = Some v}"
  by (auto simp: streamMessages_def yieldBlock_set)

lemma isSseMessage_type:
  "isSseMessage v \<Longrightarrow> \<exists>t. lookupField ''type'' v = Some (JStr t)
       \<and> t \<in> {''start'', ''delta'', ''done'', ''error'', ''model_info''}"
  by (auto simp: isSseMessage_def)

section \<open>Evaluation of examples\<close>

lemmas zflow_simps =
  executeSteps_def execute_def runParallel_def invokeCall_def sampleBackend_def sampleCall_def

lemmas eval_simps =
  fetchSse_def parseSseLines_def parseEventBlock_def yieldBlock_def blockLine_def
  split_def splitFrom.simps(2) startsWith_def slice_def trim_def trimEnd_def trimStart_def
  is_ws_def hasDataLine_def malformedBlock_def sampleParse_def Let_def

section \<open>Claims about the SSE client\<close>

text \<open>
  C1, as amended. Every value of the message type of the SSE client has a \<^verbatim>\<open>type\<close> field
  among \<^verbatim>\<open>start\<close>, \<^verbatim>\<open>delta\<close>, \<^verbatim>\<open>done\<close>, \<^verbatim>\<open>error\<close> and \<^verbatim>\<open>model_info\<close>, and carries exactly
  the fields of that shape: \<^verbatim>\<open>text\<close> for a delta, \<^verbatim>\<open>message\<close> for an error, \<^verbatim>\<open>model\<close> for a
  model_info, none for start and done; the three shapes of the outward event stream are
  among these five. \<^verbatim>\<open>fetchSse\<close> checks no shape: the values it yields are exactly the
  values that \<^verbatim>\<open>JSON.parse\<close> returns for the payloads of the blocks of the stream, so
  every yielded value has one of the five shapes when \<^verbatim>\<open>JSON.parse\<close> returns such values
  only.
\<close>

theorem SseMessage_shapes:
  assumes "fetchSse jsonParse res = Inr msgs"
  shows "msg_type m \<in> {''start'', ''delta'', ''done'', ''error'', ''model_info''}
       \<and> map fst (msg_fields m) =
           (if msg_type m = ''delta'' then [''text'']
            else if msg_type m = ''error'' then [''message'']
            else if msg_type m = ''model_info'' then [''model'']
            else [])
       \<and> isSseMessage (toJson m)
       \<and> (isZflowEvent v \<longrightarrow> isSseMessage v)
       \<and> (isSseMessage v \<longrightarrow>
            (\<exists>t. lookupField ''type'' v = Some (JStr t)
               \<and> t \<in> {''start'', ''delta'', ''done'', ''error'', ''model_info''}))
       \<and> (\<exists>chunks. body res = Some chunks
            \<and> set msgs = {v. \<exists>b \<in> set (events (parseSseLines (concat chunks))).
                              \<exists>p. parseEventBlock b = Some p \<and> jsonParse (data p) = Some v})
       \<and> ((\<forall>d v. jsonParse d = Some v \<longrightarrow> isSseMessage v) \<longrightarrow> (\<forall>v \<in> set msgs. isSseMessage v))"
proof -
  obtain chunks where b: "body res = Some chunks"
    and m: "msgs = streamMessages jsonParse (concat chunks)"
    using fetchSse_Inr [OF assms] by blast
  have s: "set msgs = {v. \<exists>b \<in> set (events (parseSseLines (concat chunks))).
                              \<exists>p. parseEventBlock b = Some p \<and> jsonParse (data p) = Some v}"
    unfolding m by (rule streamMessages_set)
  have c: "\<forall>v \<in> set msgs. isSseMessage v" if "\<forall>d v. jsonParse d = Some v \<longrightarrow> isSseMessage v"
    using that unfolding s by blast
  have a: "msg_type m \<in> {''start'', ''delta'', ''done'', ''error'', ''model_info''}
       \<and> map fst (msg_fields m) =
           (if msg_type m = ''delta'' then [''text'']
            else if msg_type m = ''error'' then [''message'']
            else if msg_type m = ''model_info'' then [''model'']
            else [])"
    by (cases m) simp_all
  have z: "isZflowEvent v \<longrightarrow> isSseMessage v"
    by (auto simp: isZflowEvent_def isSseMessage_def)
  have t: "isSseMessage v \<longrightarrow>
            (\<exists>t. lookupField ''type'' v = Some (JStr t)
               \<and> t \<in> {''start'', ''delta'', ''done'', ''error'', ''model_info''})"
    using isSseMessage_type [of v] by blast
  show ?thesis using a b s c z t toJson_isSseMessage [of m] by blast
qed

text \<open>
  The claim as stated fails twice. The type admits the \<^verbatim>\<open>start\<close> message, which is none
  of the three shapes \<^verbatim>\<open>delta\<close>, \<^verbatim>\<open>error\<close> and \<^verbatim>\<open>done\<close>; and \<^verbatim>\<open>fetchSse\<close> yields an object
  with an unknown \<^verbatim>\<open>type\<close> and a number, which are none of the five shapes of the type.
\<close>

theorem SseMessage_counterexample:
  \<open>isSseMessage (toJson Start) \<and> \<not> isZflowEvent (toJson Start)
   \<and> lookupField ''type'' (toJson Start) = Some (JStr ''start'')
   \<and> fetchSse sampleJsonParse
        \<lparr>ok = True, status = 200, body = Some [''data: {"type":"bogus"}\<newline>\<newline>data: 17\<newline>\<newline>'']\<rparr>
      = Inr [JObj [(''type'', JStr ''bogus'')], JNum 17]
   \<and> \<not> isSseMessage (JObj [(''type'', JStr ''bogus'')])
   \<and> \<not> isSseMessage (JNum 17)\<close>
  by (simp add: eval_simps sampleJsonParse_def isSseMessage_def isZflowEvent_def toJson_def
        hasExactly_def)

text \<open>
  An instance: a stream of a delta and a done, cut inside \<^verbatim>\<open>data:\<close>, read with a decoder
  that returns values of the five shapes only.
\<close>

theorem SseMessage_shapes_witness:
  \<open>fetchSse (\<lambda>s. map_option toJson (sampleParse s))
        \<lparr>ok = True, status = 200,
         body = Some [''data: {"type":"delta","text":"hi"}\<newline>\<newline>da'',
                      ''ta: {"type":"done"}\<newline>\<newline>'']\<rparr>
      = Inr [toJson (Delta ''hi''), toJson Done]
   \<and> isSseMessage (toJson (Delta ''hi'')) \<and> isSseMessage (toJson Done)
   \<and> isZflowEvent (toJson Done)
   \<and> msg_type (Delta ''hi'') = ''delta'' \<and> map fst (msg_fields (Delta ''hi'')) = [''text'']\<close>
proof -
  let ?jp = "\<lambda>s. map_option toJson (sampleParse s)"
  let ?res = \<open>\<lparr>ok = True, status = 200,
         body = Some [''data: {"type":"delta","text":"hi"}\<newline>\<newline>da'',
                      ''ta: {"type":"done"}\<newline>\<newline>'']\<rparr>\<close>
  have f: "fetchSse ?jp ?res = Inr [toJson (Delta ''hi''), toJson Done]"
    by (simp add: eval_simps)
  have h: "\<forall>d v. ?jp d = Some v \<longrightarrow> isSseMessage v"
    using toJson_isSseMessage by auto
  have z: "isZflowEvent (toJson Done)"
    by (simp add: isZflowEvent_def toJson_def hasExactly_def)
  from SseMessage_shapes [OF f, of "Delta ''hi''" "toJson Done"] h z
  have "isSseMessage (toJson (Delta ''hi''))"
    and "isSseMessage (toJson Done)"
    and "\<forall>v \<in> set [toJson (Delta ''hi''), toJson Done]. isSseMessage v"
    by blast+
  then show ?thesis using f z by simp
qed

text \<open>
  C2. The messages of a stream do not depend on the \<^verbatim>\<open>event:\<close> header lines: two streams
  whose texts differ only in such lines make \<^verbatim>\<open>fetchSse\<close> yield the same messages and the
  flows page show the same output, whatever the chunks; and two blocks with the same
  collected payload yield the same.
\<close>

theorem event_header_irrelevant:
  assumes "sameExceptEventHeaders (concat chunks1) (concat chunks2)"
  shows "fetchSse jsonParse (res\<lparr>body := Some chunks1\<rparr>)
           = fetchSse jsonParse (res\<lparr>body := Some chunks2\<rparr>)
       \<and> run jsonParse' (res\<lparr>body := Some chunks1\<rparr>)
           = run jsonParse' (res\<lparr>body := Some chunks2\<rparr>)
       \<and> (map_option data (parseEventBlock block1) = map_option data (parseEventBlock block2)
            \<longrightarrow> yieldBlock jsonParse block1 = yieldBlock jsonParse block2)"
  using fetchSse_headers [OF assms, of jsonParse res] fetchSse_headers [OF assms, of jsonParse' res]
  by (simp add: run_def yieldBlock_data)

theorem event_header_irrelevant_witness:
  \<open>sameExceptEventHeaders
      (concat [''event: delta\<newline>\<newline>data: {"type":"delta","text":"hi"}\<newline>\<newline>'',
               ''event: done\<newline>\<newline>data: {"type":"done"}\<newline>\<newline>''])
      (concat [''event: x\<newline>\<newline>data: {"type":"delta","text":"hi"}\<newline>\<newline>event:'',
               '' y\<newline>\<newline>data: {"type":"done"}\<newline>\<newline>''])
   \<and> fetchSse sampleParse \<lparr>ok = True, status = 200, body = Some
         [''event: delta\<newline>\<newline>data: {"type":"delta","text":"hi"}\<newline>\<newline>'',
          ''event: done\<newline>\<newline>data: {"type":"done"}\<newline>\<newline>'']\<rparr>
     = fetchSse sampleParse \<lparr>ok = True, status = 200, body = Some
         [''event: x\<newline>\<newline>data: {"type":"delta","text":"hi"}\<newline>\<newline>event:'',
          '' y\<newline>\<newline>data: {"type":"done"}\<newline>\<newline>'']\<rparr>
   \<and> run sampleParse \<lparr>ok = True, status = 200, body = Some
         [''event: x\<newline>\<newline>data: {"type":"delta","text":"hi"}\<newline>\<newline>event:'',
          '' y\<newline>\<newline>data: {"type":"done"}\<newline>\<newline>'']\<rparr>
     = (None, ''hi'')
   \<and> map_option data (parseEventBlock ''event: a\<newline>data: {"type":"done"}'')
     = map_option data (parseEventBlock ''event: b\<newline>data: {"type":"done"}'')
   \<and> yieldBlock sampleParse ''event: a\<newline>data: {"type":"done"}''
     = yieldBlock sampleParse ''event: b\<newline>data: {"type":"done"}''\<close>
proof -
  let ?c1 = \<open>[''event: delta\<newline>\<newline>data: {"type":"delta","text":"hi"}\<newline>\<newline>'',
               ''event: done\<newline>\<newline>data: {"type":"done"}\<newline>\<newline>'']\<close>
  let ?c2 = \<open>[''event: x\<newline>\<newline>data: {"type":"delta","text":"hi"}\<newline>\<newline>event:'',
               '' y\<newline>\<newline>data: {"type":"done"}\<newline>\<newline>'']\<close>
  let ?res = "\<lparr>ok = True, status = 200, body = None\<rparr>"
  have h: "sameExceptEventHeaders (concat ?c1) (concat ?c2)"
    by (simp add: sameExceptEventHeaders_def sameLineOrHeader_def eval_simps)
  have d: \<open>map_option data (parseEventBlock ''event: a\<newline>data: {"type":"done"}'')
     = map_option data (parseEventBlock ''event: b\<newline>data: {"type":"done"}'')\<close>
    by (simp add: eval_simps)
  have r: "run sampleParse (?res\<lparr>body := Some ?c1\<rparr>) = (None, ''hi'')"
    by (simp add: run_def runOutput_def eval_simps)
  from event_header_irrelevant [OF h, of sampleParse ?res sampleParse
      \<open>''event: a\<newline>data: {"type":"done"}''\<close> \<open>''event: b\<newline>data: {"type":"done"}''\<close>]
  show ?thesis using h d r by simp
qed

text \<open>
  C3. Parsing is independent of the chunk boundaries: for every list of reader chunks,
  \<^verbatim>\<open>fetchSse\<close> yields the same messages, or throws the same exception, as on the single
  chunk that holds the whole text; so does the read loop on its own.
\<close>

theorem fetchSse_chunk_independent:
  "fetchSse jsonParse (res\<lparr>body := Some chunks\<rparr>)
     = fetchSse jsonParse (res\<lparr>body := Some [concat chunks]\<rparr>)
   \<and> readLoop jsonParse [] chunks = readLoop jsonParse [] [concat chunks]"
  by (simp add: fetchSse_def readLoop_whole readLoop_one del: readLoop.simps)

text \<open>
  C8. Output is not retracted on failure: an \<^verbatim>\<open>error\<close> event appends its message to the
  output shown so far, so the text of the earlier deltas stays, unchanged, as a prefix
  of what is shown after the error and after any later event.
\<close>

theorem error_keeps_output:
  "onEvent (Error m) p = p @ ''\<newline>Error: '' @ m @ ''\<newline>''
   \<and> runOutput (evts @ [Error m]) = runOutput evts @ ''\<newline>Error: '' @ m @ ''\<newline>''
   \<and> runOutput (map Delta texts @ [Error m]) = concat texts @ ''\<newline>Error: '' @ m @ ''\<newline>''
   \<and> take (length (runOutput evts)) (runOutput (evts @ later)) = runOutput evts"
proof -
  have e: "runOutput [Error m] = ''\<newline>Error: '' @ m @ ''\<newline>''"
    by (simp add: runOutput_def)
  have "runOutput (evts @ [Error m]) = runOutput evts @ ''\<newline>Error: '' @ m @ ''\<newline>''"
    for evts
    using runOutput_append [of evts "[Error m]"] e by simp
  then show ?thesis
    by (simp add: runOutput_append runOutput_deltas)
qed

text \<open>
  C9. Malformed blocks are skipped: a block without a \<^verbatim>\<open>data:\<close> line parses to
  \<^verbatim>\<open>null\<close>, a malformed block yields no message, and on a response that is \<^verbatim>\<open>ok\<close> and
  has a body \<^verbatim>\<open>fetchSse\<close> does not throw and yields what the well-formed blocks yield.
\<close>

theorem fetchSse_skips_malformed:
  assumes "ok res" and "body res = Some chunks"
  shows "(\<not> hasDataLine block \<longrightarrow> parseEventBlock block = None)
       \<and> (malformedBlock jsonParse block \<longrightarrow> yieldBlock jsonParse block = [])
       \<and> fetchSse jsonParse res =
           Inr (concat (map (yieldBlock jsonParse)
                 (filter (\<lambda>b. \<not> malformedBlock jsonParse b)
                    (events (parseSseLines (concat chunks))))))"
proof -
  have "fetchSse jsonParse res = Inr (streamMessages jsonParse (concat chunks))"
    using assms by (simp add: fetchSse_def readLoop_whole)
  moreover have "concat (map (yieldBlock jsonParse)
                 (filter (\<lambda>b. \<not> malformedBlock jsonParse b)
                    (events (parseSseLines (concat chunks)))))
     = streamMessages jsonParse (concat chunks)"
    unfolding streamMessages_def
    by (rule concat_map_filter_nonempty) (simp add: malformed_yields_nothing)
  ultimately show ?thesis
    using no_data_line_None [of block] malformed_yields_nothing [of jsonParse block] by simp
qed

theorem fetchSse_skips_malformed_witness:
  \<open>fetchSse sampleParse
      \<lparr>ok = True, status = 200,
       body = Some [''event: ping\<newline>\<newline>da'',
                    ''ta: {oops\<newline>\<newline>data: {"type":"done"}\<newline>\<newline>'']\<rparr>
     = Inr [Done]
   \<and> \<not> hasDataLine ''event: ping''
   \<and> parseEventBlock ''event: ping'' = None
   \<and> malformedBlock sampleParse ''data: {oops''
   \<and> yieldBlock sampleParse ''data: {oops'' = []\<close>
proof -
  have a: "ok \<lparr>ok = True, status = 200,
       body = Some [''event: ping\<newline>\<newline>da'',
                    ''ta: {oops\<newline>\<newline>data: {\"type\":\"done\"}\<newline>\<newline>'']\<rparr>"
    by simp
  have b: "body \<lparr>ok = True, status = 200,
       body = Some [''event: ping\<newline>\<newline>da'',
                    ''ta: {oops\<newline>\<newline>data: {\"type\":\"done\"}\<newline>\<newline>'']\<rparr>
     = Some [''event: ping\<newline>\<newline>da'',
                    ''ta: {oops\<newline>\<newline>data: {\"type\":\"done\"}\<newline>\<newline>'']"
    by simp
  have c: "\<not> hasDataLine ''event: ping''"
    by (simp add: eval_simps)
  have d: "malformedBlock sampleParse ''data: {oops''"
    by (simp add: eval_simps)
  have e: "events (parseSseLines (concat [''event: ping\<newline>\<newline>da'',
                    ''ta: {oops\<newline>\<newline>data: {\"type\":\"done\"}\<newline>\<newline>'']))
     = [''event: ping'', ''data: {oops'', ''data: {\"type\":\"done\"}'']"
    by (simp add: eval_simps)
  have f: "\<not> malformedBlock sampleParse ''data: {\"type\":\"done\"}''"
    by (simp add: eval_simps)
  have g: "yieldBlock sampleParse ''data: {\"type\":\"done\"}'' = [Done]"
    by (simp add: eval_simps)
  have h: "malformedBlock sampleParse ''event: ping''"
    by (simp add: eval_simps)
  from fetchSse_skips_malformed [OF a b, of "''event: ping''" sampleParse]
       fetchSse_skips_malformed [OF a b, of "''data: {oops''" sampleParse]
  show ?thesis
    unfolding e using c d f g h by simp
qed

text \<open>
  C10. \<^verbatim>\<open>parseSseLines\<close> loses no input: for every buffer, the returned events joined
  with a blank line, followed by a blank line and the rest (the rest alone when there
  are no events), give back the buffer, and the rest contains no blank line.
\<close>

theorem parseSseLines_lossless:
  "(if events (parseSseLines buffer) = [] then rest (parseSseLines buffer)
    else join (events (parseSseLines buffer)) ''\<newline>\<newline>'' @ ''\<newline>\<newline>''
           @ rest (parseSseLines buffer)) = buffer
   \<and> (\<nexists>u v. rest (parseSseLines buffer) = u @ ''\<newline>\<newline>'' @ v)"
proof
  let ?ps = "splitFrom ''\<newline>\<newline>'' buffer"
  have "(if butlast ?ps = [] then last ?ps
         else join (butlast ?ps) ''\<newline>\<newline>'' @ ''\<newline>\<newline>'' @ last ?ps)
        = join ?ps ''\<newline>\<newline>''"
    using splitFrom_ne by (rule parts_rebuild)
  also have "\<dots> = buffer" by (rule join_splitFrom)
  finally show "(if events (parseSseLines buffer) = [] then rest (parseSseLines buffer)
    else join (events (parseSseLines buffer)) ''\<newline>\<newline>'' @ ''\<newline>\<newline>''
           @ rest (parseSseLines buffer)) = buffer"
    by (simp only: parseSseLines_events parseSseLines_rest)
next
  have "\<And>u v. last (splitFrom ''\<newline>\<newline>'' buffer) \<noteq> u @ ''\<newline>\<newline>'' @ v"
    by (rule last_piece_clean) simp
  then show "\<nexists>u v. rest (parseSseLines buffer) = u @ ''\<newline>\<newline>'' @ v"
    by (simp only: parseSseLines_rest) blast
qed

theorem parseSseLines_lossless_witness:
  "parseSseLines ''a\<newline>\<newline>\<newline>b\<newline>\<newline>c\<newline>''
     = \<lparr>events = [''a'', ''\<newline>b''], rest = ''c\<newline>''\<rparr>
   \<and> join [''a'', ''\<newline>b''] ''\<newline>\<newline>'' @ ''\<newline>\<newline>'' @ ''c\<newline>''
     = ''a\<newline>\<newline>\<newline>b\<newline>\<newline>c\<newline>''"
  using parseSseLines_lossless [of "''a\<newline>\<newline>\<newline>b\<newline>\<newline>c\<newline>''"]
  by (simp add: parseSseLines_def split_def splitFrom.simps(2) startsWith_def)

section \<open>Claims about the Zflow core\<close>

text \<open>
  C4. A Parallel stage that succeeds merges the outputs of its branches in the order the
  branches are declared in, with a newline between adjacent outputs, whatever the order
  in which the branches complete.
\<close>

theorem parallel_merge_declared_order:
  assumes "set order = {0..<length branches}"
    and "\<forall>c \<in> set branches. snd (invokeCall backend c currentBuffer) = None"
  shows "runParallel backend order currentBuffer branches
           = Resolved (join (map (\<lambda>c. concat (fst (invokeCall backend c currentBuffer))) branches)
                ''\<newline>'')"
proof -
  let ?outs = "map (\<lambda>c. invokeCall backend c currentBuffer) branches"
  let ?f = "\<lambda>i. concat (fst (?outs ! i))"
  have ok: "\<And>i. i < length ?outs \<Longrightarrow> snd (?outs ! i) = None"
    using assms(2) by simp
  have "fold (\<lambda>i s. if length ?outs \<le> i then s else s[i := ?f i]) order
          (replicate (length branches) [])
        = map ?f [0..<length ?outs]"
    using assms(1) by (intro fold_slots_all) simp_all
  also have "\<dots> = map (\<lambda>c. concat (fst (invokeCall backend c currentBuffer))) branches"
    by (intro nth_equalityI) simp_all
  finally show ?thesis
    unfolding runParallel_def using collectBranches_ok [OF ok] by simp
qed

theorem parallel_merge_declared_order_witness:
  "set [1, 0] = {0..<length [sampleCall ''provX:m1'', sampleCall ''provX:m2'']}
   \<and> snd (invokeCall sampleBackend (sampleCall ''provX:m1'') ''q'') = None
   \<and> snd (invokeCall sampleBackend (sampleCall ''provX:m2'') ''q'') = None
   \<and> runParallel sampleBackend [1, 0] ''q'' [sampleCall ''provX:m1'', sampleCall ''provX:m2'']
       = Resolved ''X\<newline>Y''"
proof -
  have a: "set [1, 0] = {0..<length [sampleCall ''provX:m1'', sampleCall ''provX:m2'']}"
    by auto
  have b: "\<forall>c \<in> set [sampleCall ''provX:m1'', sampleCall ''provX:m2''].
             snd (invokeCall sampleBackend c ''q'') = None"
    by (simp add: invokeCall_def sampleBackend_def sampleCall_def)
  from parallel_merge_declared_order [OF a b] b
  show ?thesis using a by (simp add: invokeCall_def sampleBackend_def sampleCall_def)
qed

text \<open>
  C5. Fail-fast: when a branch of a Parallel stage fails, every sibling of the branch
  whose failure is seen first is cancelled, and the run emits exactly one \<^verbatim>\<open>error\<close>
  event and no \<^verbatim>\<open>done\<close> event.
\<close>

theorem parallel_fail_fast:
  assumes "bufferAfter backend schedule 0 rootInput pre = Some buf"
    and "set (schedule (length pre)) = {0..<length branches}"
    and "i < length branches"
    and "snd (invokeCall backend (branches ! i) buf) = Some cause"
  shows "\<exists>f c. f < length branches
           \<and> snd (invokeCall backend (branches ! f) buf) = Some c
           \<and> execute backend schedule rootInput (pre @ Parallel branches # post) = [OutError c]
           \<and> length (filter isError
                (execute backend schedule rootInput (pre @ Parallel branches # post))) = 1
           \<and> OutDone \<notin> set (execute backend schedule rootInput (pre @ Parallel branches # post))
           \<and> (\<forall>j < length branches. j \<noteq> f \<longrightarrow>
                (length pre, Cancel j)
                  \<in> set (executeSteps backend schedule rootInput (pre @ Parallel branches # post)))"
proof -
  let ?outs = "map (\<lambda>c. invokeCall backend c buf) branches"
  let ?order = "schedule (length pre)"
  have "i \<in> set ?order" using assms(2,3) by simp
  moreover have "i < length ?outs" using assms(3) by simp
  moreover have "snd (?outs ! i) = Some cause" using assms(3,4) by simp
  ultimately obtain f c where f: "f < length ?outs" and c: "snd (?outs ! f) = Some c"
    and col: "collectBranches ?outs ?order (replicate (length branches) [])
               = Failed c (filter (\<lambda>j. j \<noteq> f) [0..<length ?outs])"
    using collectBranches_failed [of i ?order ?outs cause "replicate (length branches) []"]
    by blast
  let ?cancelled = "filter (\<lambda>j. j \<noteq> f) [0..<length branches]"
  have par: "runParallel backend ?order buf branches = Failed c ?cancelled"
    using col by (simp add: runParallel_def)
  have steps: "executeSteps backend schedule rootInput (pre @ Parallel branches # post)
      = map (Pair (length pre)) (map Cancel ?cancelled) @ [(length pre, Emit (OutError c))]"
    unfolding executeSteps_def
    using executeFrom_after [OF assms(1), of "Parallel branches" post] par by simp
  have em: "emitted (map (Pair k \<circ> Cancel) js @ rest) = emitted rest" for k js rest
    by (induction js) auto
  have ev: "execute backend schedule rootInput (pre @ Parallel branches # post) = [OutError c]"
    unfolding execute_def steps by (simp add: em)
  have canc: "\<forall>j < length branches. j \<noteq> f \<longrightarrow>
                (length pre, Cancel j)
                  \<in> set (executeSteps backend schedule rootInput (pre @ Parallel branches # post))"
    unfolding steps by auto
  have "f < length branches" using f by simp
  moreover have "snd (invokeCall backend (branches ! f) buf) = Some c" using c f by simp
  ultimately show ?thesis using ev canc by auto
qed

theorem parallel_fail_fast_witness:
  "bufferAfter sampleBackend (\<lambda>k. [2, 1, 0]) 0 ''hello'' [Call (sampleCall ''provX:echo'')]
     = Some ''hello''
   \<and> snd (invokeCall sampleBackend (sampleCall ''provX:down'') ''hello'') = Some ''unknown model''
   \<and> execute sampleBackend (\<lambda>k. [2, 1, 0]) ''hello''
        [Call (sampleCall ''provX:echo''),
         Parallel [sampleCall ''provX:m1'', sampleCall ''provX:down'', sampleCall ''provX:m2''],
         Call (sampleCall ''provX:echo'')]
       = [OutError ''unknown model'']
   \<and> (1, Cancel 0) \<in> set (executeSteps sampleBackend (\<lambda>k. [2, 1, 0]) ''hello''
        [Call (sampleCall ''provX:echo''),
         Parallel [sampleCall ''provX:m1'', sampleCall ''provX:down'', sampleCall ''provX:m2''],
         Call (sampleCall ''provX:echo'')])
   \<and> (1, Cancel 2) \<in> set (executeSteps sampleBackend (\<lambda>k. [2, 1, 0]) ''hello''
        [Call (sampleCall ''provX:echo''),
         Parallel [sampleCall ''provX:m1'', sampleCall ''provX:down'', sampleCall ''provX:m2''],
         Call (sampleCall ''provX:echo'')])"
proof -
  let ?pre = "[Call (sampleCall ''provX:echo'')]"
  let ?bs = "[sampleCall ''provX:m1'', sampleCall ''provX:down'', sampleCall ''provX:m2'']"
  let ?post = "[Call (sampleCall ''provX:echo'')]"
  have a: "bufferAfter sampleBackend (\<lambda>k. [2, 1, 0]) 0 ''hello'' ?pre = Some ''hello''"
    by (simp add: zflow_simps)
  have b: "set ((\<lambda>k. [2, 1, 0]) (length ?pre)) = {0..<length ?bs}"
    by auto
  have c: "1 < length ?bs" by simp
  have d: "snd (invokeCall sampleBackend (?bs ! 1) ''hello'') = Some ''unknown model''"
    by (simp add: zflow_simps)
  from parallel_fail_fast [OF a b c d, of ?post]
  obtain f c where "f < length ?bs"
    and "execute sampleBackend (\<lambda>k. [2, 1, 0]) ''hello'' (?pre @ Parallel ?bs # ?post) = [OutError c]"
    and "\<forall>j < length ?bs. j \<noteq> f \<longrightarrow> (length ?pre, Cancel j)
           \<in> set (executeSteps sampleBackend (\<lambda>k. [2, 1, 0]) ''hello'' (?pre @ Parallel ?bs # ?post))"
    by blast
  then show ?thesis using a d by (simp add: zflow_simps)
qed

text \<open>
  C6. The kind of a variable is a function of its name: exactly one uppercase letter is
  a Model, a name starting with \<^verbatim>\<open>p\<close> a Prompt, a name starting with \<^verbatim>\<open>i\<close> an Input, and
  every other name gives the parse error \<^verbatim>\<open>UnknownVariableKind\<close>.
\<close>

theorem inferKind_total:
  "(length name = 1 \<and> list_all isUpper name \<longrightarrow> inferKind name = Inr Model)
   \<and> (startsWith name ''p'' \<longrightarrow> inferKind name = Inr Prompt)
   \<and> (startsWith name ''i'' \<longrightarrow> inferKind name = Inr Input)
   \<and> (\<not> (length name = 1 \<and> list_all isUpper name) \<and> \<not> startsWith name ''p''
        \<and> \<not> startsWith name ''i'' \<longrightarrow> inferKind name = Inl UnknownVariableKind)"
proof -
  have p: "\<not> (length name = 1 \<and> list_all isUpper name)" if "startsWith name ''p''"
    using that by (cases name) (auto simp: startsWith_def isUpper_def)
  have i: "\<not> (length name = 1 \<and> list_all isUpper name)" if "startsWith name ''i''"
    using that by (cases name) (auto simp: startsWith_def isUpper_def)
  have pi: "\<not> startsWith name ''p''" if "startsWith name ''i''"
    using that by (cases name) (auto simp: startsWith_def)
  show ?thesis using p i pi by (auto simp: inferKind_def)
qed

theorem inferKind_total_witness:
  "inferKind ''A'' = Inr Model \<and> inferKind ''p1'' = Inr Prompt \<and> inferKind ''i2'' = Inr Input
   \<and> inferKind ''xx'' = Inl UnknownVariableKind"
  using inferKind_total [of "''A''"] inferKind_total [of "''p1''"] inferKind_total [of "''i2''"]
        inferKind_total [of "''xx''"]
  by (simp add: startsWith_def isUpper_def)

text \<open>
  C7. Streaming visibility: every \<^verbatim>\<open>delta\<close> of a run is emitted while the final stage
  is in flight, after the stages before it have resolved, and is one of the deltas of
  the final stage; when the final stage is an operator call it is a chunk of that call.
\<close>

theorem deltas_only_from_final_stage:
  assumes "(k, Emit (OutDelta t)) \<in> set (executeSteps backend schedule rootInput workflow)"
  shows "Suc k = length workflow
       \<and> (\<exists>buf. bufferAfter backend schedule 0 rootInput (butlast workflow) = Some buf
            \<and> Emit (OutDelta t)
                 \<in> set (fst (runStage backend (schedule k) True buf (last workflow)))
            \<and> (\<forall>c. last workflow = Call c \<longrightarrow> t \<in> set (fst (invokeCall backend c buf))))"
proof -
  from assms obtain buf where k: "Suc k = length workflow"
    and b: "bufferAfter backend schedule 0 rootInput (butlast workflow) = Some buf"
    and e: "Emit (OutDelta t) \<in> set (fst (runStage backend (schedule k) True buf (last workflow)))"
    unfolding executeSteps_def using executeFrom_delta [of k t backend schedule 0 rootInput workflow]
    by auto
  have "t \<in> set (fst (invokeCall backend c buf))" if "last workflow = Call c" for c
    using e that by (auto split: prod.splits)
  then show ?thesis using k b e by blast
qed

theorem deltas_only_from_final_stage_witness:
  "(1, Emit (OutDelta ''he'')) \<in> set (executeSteps sampleBackend (\<lambda>k. []) ''hello''
       [Call (sampleCall ''provX:echo''), Call (sampleCall ''provX:echo'')])
   \<and> Suc 1 = length [Call (sampleCall ''provX:echo''), Call (sampleCall ''provX:echo'')]
   \<and> bufferAfter sampleBackend (\<lambda>k. []) 0 ''hello'' [Call (sampleCall ''provX:echo'')]
        = Some ''hello''
   \<and> ''he'' \<in> set (fst (invokeCall sampleBackend (sampleCall ''provX:echo'') ''hello''))
   \<and> execute sampleBackend (\<lambda>k. []) ''hello''
       [Call (sampleCall ''provX:echo''), Call (sampleCall ''provX:echo'')]
        = [OutDelta ''he'', OutDelta ''llo'', OutDone]"
proof -
  have a: "(1, Emit (OutDelta ''he'')) \<in> set (executeSteps sampleBackend (\<lambda>k. []) ''hello''
       [Call (sampleCall ''provX:echo''), Call (sampleCall ''provX:echo'')])"
    by (simp add: zflow_simps)
  from deltas_only_from_final_stage [OF a]
  have "Suc 1 = length [Call (sampleCall ''provX:echo''), Call (sampleCall ''provX:echo'')]"
    by blast
  then show ?thesis using a by (simp add: zflow_simps)
qed

end
